theory Spec2Isabelle
  imports Main
begin

section \<open>Strings of Unicode code points\<close>

text \<open>
  A Python \<open>str\<close> is a sequence of Unicode code points, so a character is modelled as
  its code point (what \<open>ord\<close> returns) and a string as a list of them. Isabelle's own
  \<open>char\<close> is a byte and cannot hold the letters the program works on.
\<close>

type_synonym uchar = nat
type_synonym ustr = "uchar list"

definition u :: "string \<Rightarrow> ustr" where
  \<comment> \<open>the code points of an ASCII literal\<close>
  "u s = map of_char s"

abbreviation sp :: uchar where "sp \<equiv> 0x20"
abbreviation ch_a_acute :: uchar where "ch_a_acute \<equiv> 0xE1"
abbreviation ch_e_acute :: uchar where "ch_e_acute \<equiv> 0xE9"
abbreviation ch_i_acute :: uchar where "ch_i_acute \<equiv> 0xED"
abbreviation ch_o_acute :: uchar where "ch_o_acute \<equiv> 0xF3"
abbreviation ch_u_acute :: uchar where "ch_u_acute \<equiv> 0xFA"
abbreviation ch_y_acute :: uchar where "ch_y_acute \<equiv> 0xFD"
abbreviation ch_c_caron :: uchar where "ch_c_caron \<equiv> 0x10D"
abbreviation ch_d_caron :: uchar where "ch_d_caron \<equiv> 0x10F"
abbreviation ch_e_caron :: uchar where "ch_e_caron \<equiv> 0x11B"
abbreviation ch_n_caron :: uchar where "ch_n_caron \<equiv> 0x148"
abbreviation ch_eng :: uchar where "ch_eng \<equiv> 0x14B"
abbreviation ch_r_caron :: uchar where "ch_r_caron \<equiv> 0x159"
abbreviation ch_s_caron :: uchar where "ch_s_caron \<equiv> 0x161"
abbreviation ch_t_caron :: uchar where "ch_t_caron \<equiv> 0x165"
abbreviation ch_u_ring :: uchar where "ch_u_ring \<equiv> 0x16F"
abbreviation ch_z_caron :: uchar where "ch_z_caron \<equiv> 0x17E"
abbreviation ch_gamma :: uchar where "ch_gamma \<equiv> 0x263"
abbreviation ch_lezh :: uchar where "ch_lezh \<equiv> 0x26E"
abbreviation ch_m_hook :: uchar where "ch_m_hook \<equiv> 0x271"
abbreviation ch_ezh :: uchar where "ch_ezh \<equiv> 0x292"

text \<open>
  The Unicode character database belongs to the Python runtime, not to the repository.
  The three tables the program consults are parameters: \<open>str.isalnum\<close> and
  \<open>str.isspace\<close> of one character (they decide \<open>\w\<close>, \<open>\W\<close>, \<open>\b\<close>, \<open>\s\<close>, \<open>\S\<close> and
  \<open>str.strip\<close>) and the full case folding of one character (\<open>str.casefold\<close> folds a
  string character by character).
\<close>

record unicode_db =
  isalnum :: "uchar \<Rightarrow> bool"
  isspace :: "uchar \<Rightarrow> bool"
  casefold1 :: "uchar \<Rightarrow> ustr"

section \<open>The fragment of \<open>re.sub\<close> the program uses\<close>

text \<open>
  Every pattern of the program is a sequence of: a word boundary \<open>\b\<close>, one character
  of a class, a parenthesised (captured) character of a class, an optional character
  \<open>c?\<close> and a repetition \<open>c+\<close>. A replacement template is a sequence of literal
  characters and group references \<open>\1\<close>, \<open>\2\<close>.
\<close>

type_synonym cclass = "uchar \<Rightarrow> bool"

datatype item = Bnd cclass | One cclass | Grp cclass | Opt cclass | Plus cclass

datatype tok = TChr uchar | TRef nat

definition chr :: "uchar \<Rightarrow> cclass" where
  "chr a = (\<lambda>c. c = a)"

definition any_of :: "ustr \<Rightarrow> cclass" where
  \<comment> \<open>the class \<open>[abc]\<close>\<close>
  "any_of as = (\<lambda>c. c \<in> set as)"

definition word :: "unicode_db \<Rightarrow> cclass" where
  \<comment> \<open>\<open>\w\<close> on a \<open>str\<close> pattern: alphanumeric or the underscore\<close>
  "word db = (\<lambda>c. isalnum db c \<or> c = 0x5F)"

definition non_word :: "unicode_db \<Rightarrow> cclass" where
  "non_word db = (\<lambda>c. \<not> word db c)"

definition space :: "unicode_db \<Rightarrow> cclass" where
  "space db = isspace db"

definition non_space :: "unicode_db \<Rightarrow> cclass" where
  "non_space db = (\<lambda>c. \<not> isspace db c)"

definition lit :: "ustr \<Rightarrow> item list" where
  \<comment> \<open>a pattern of literal characters\<close>
  "lit s = map (\<lambda>a. One (chr a)) s"

definition repl :: "ustr \<Rightarrow> tok list" where
  \<comment> \<open>a template of literal characters\<close>
  "repl s = map TChr s"

definition at_boundary :: "cclass \<Rightarrow> uchar option \<Rightarrow> ustr \<Rightarrow> bool" where
  \<comment> \<open>\<open>\b\<close>: exactly one of the characters before and after the position is a word
      character; the start and the end of the string count as non-word\<close>
  "at_boundary w prev s =
     ((case prev of None \<Rightarrow> False | Some a \<Rightarrow> w a) \<noteq> (case s of [] \<Rightarrow> False | b # _ \<Rightarrow> w b))"

fun first_some :: "('a \<Rightarrow> 'b option) \<Rightarrow> 'a list \<Rightarrow> 'b option" where
  "first_some f [] = None"
| "first_some f (x # xs) = (case f x of Some y \<Rightarrow> Some y | None \<Rightarrow> first_some f xs)"

text \<open>
  \<open>rmatch p prev s\<close> matches the pattern \<open>p\<close> at the start of \<open>s\<close>, where \<open>prev\<close> is the
  character before that position. It returns the number of characters consumed and the
  captured characters in order. \<open>c?\<close> and \<open>c+\<close> are greedy and backtrack as in Python:
  the longest repetition is tried first.
\<close>

fun rmatch :: "item list \<Rightarrow> uchar option \<Rightarrow> ustr \<Rightarrow> (nat \<times> ustr) option" where
  "rmatch [] prev s = Some (0, [])"
| "rmatch (Bnd w # p) prev s = (if at_boundary w prev s then rmatch p prev s else None)"
| "rmatch (One c # p) prev s =
     (case s of
        [] \<Rightarrow> None
      | x # xs \<Rightarrow>
          if c x then (case rmatch p (Some x) xs of None \<Rightarrow> None | Some (n, g) \<Rightarrow> Some (Suc n, g))
          else None)"
| "rmatch (Grp c # p) prev s =
     (case s of
        [] \<Rightarrow> None
      | x # xs \<Rightarrow>
          if c x then (case rmatch p (Some x) xs of None \<Rightarrow> None | Some (n, g) \<Rightarrow> Some (Suc n, x # g))
          else None)"
| "rmatch (Opt c # p) prev s =
     (case s of
        [] \<Rightarrow> rmatch p prev s
      | x # xs \<Rightarrow>
          if c x then (case rmatch p (Some x) xs of None \<Rightarrow> rmatch p prev s | Some (n, g) \<Rightarrow> Some (Suc n, g))
          else rmatch p prev s)"
| "rmatch (Plus c # p) prev s =
     first_some
       (\<lambda>k. case rmatch p (Some (s ! (k - 1))) (drop k s) of None \<Rightarrow> None | Some (n, g) \<Rightarrow> Some (k + n, g))
       (rev [1..<Suc (length (takeWhile c s))])"

definition expand :: "tok list \<Rightarrow> ustr \<Rightarrow> ustr" where
  \<comment> \<open>the template with \<open>\k\<close> replaced by the \<open>k\<close>-th captured character\<close>
  "expand t g = concat (map (\<lambda>x. case x of TChr c \<Rightarrow> [c] | TRef k \<Rightarrow> [g ! (k - 1)]) t)"

text \<open>
  \<open>re.sub\<close> scans from the left; at a match it emits the expanded template and goes on
  behind the match, otherwise it copies one character. No pattern of the program can
  match the empty string (\<open>consumes\<close> below), so a match of length zero does not occur
  and is treated like a failed match. \<open>re.sub\<close> rejects a template that refers to a
  group the pattern does not have; no template of the program does (\<open>refs_ok\<close> below),
  so \<open>expand\<close> always finds the character it looks up.
\<close>

fun re_sub_at :: "item list \<Rightarrow> tok list \<Rightarrow> uchar option \<Rightarrow> ustr \<Rightarrow> ustr" where
  "re_sub_at p t prev [] = []"
| "re_sub_at p t prev (x # xs) =
     (case rmatch p prev (x # xs) of
        Some (Suc n, g) \<Rightarrow> expand t g @ re_sub_at p t (Some ((x # xs) ! n)) (drop n xs)
      | _ \<Rightarrow> x # re_sub_at p t (Some x) xs)"

definition re_sub :: "item list \<Rightarrow> tok list \<Rightarrow> ustr \<Rightarrow> ustr" where
  "re_sub p t s = re_sub_at p t None s"

type_synonym rule = "item list \<times> tok list"

definition apply_rules :: "rule list \<Rightarrow> ustr \<Rightarrow> ustr" where
  \<comment> \<open>a chain of \<open>string = re.sub(pattern, template, string)\<close> statements, in order\<close>
  "apply_rules rs s = foldl (\<lambda>s (p, t). re_sub p t s) s rs"

section \<open>The program\<close>

subsection \<open>Normalizer\<close>

definition casefold :: "unicode_db \<Rightarrow> ustr \<Rightarrow> ustr" where
  "casefold db s = concat (map (casefold1 db) s)"

definition strip :: "unicode_db \<Rightarrow> ustr \<Rightarrow> ustr" where
  \<comment> \<open>\<open>str.strip()\<close>: leading and trailing whitespace removed\<close>
  "strip db s = rev (dropWhile (isspace db) (rev (dropWhile (isspace db) s)))"

definition normalize :: "unicode_db \<Rightarrow> ustr \<Rightarrow> ustr" where
  "normalize db string =
     (let string = re_sub [Grp (word db), Grp (non_word db)] [TRef 1, TChr sp, TRef 2] (casefold db string);
          string = re_sub [Grp (non_word db), Grp (word db)] [TRef 1, TChr sp, TRef 2] string;
          string = re_sub [Plus (space db)] [TChr sp] string
      in strip db string)"

subsection \<open>The rule tables\<close>

text \<open>
  Each stage below is a chain of \<open>re.sub\<close> calls on literal patterns and a few
  character classes; the tables list them in the order of the source. The stages
  \<open>_e-caron\<close> and \<open>_i_i-acute\<close> of the source are \<open>e_caron\<close> and \<open>i_i_acute\<close> here.
\<close>

definition e_caron_rules :: "rule list" where
  "e_caron_rules =
   [([Grp (any_of (u ''bpfv''))] @ lit [ch_e_caron], [TRef 1] @ repl (u ''je'')),
   (lit (u ''d'' @ [ch_e_caron]), repl ([ch_d_caron] @ u ''e'')),
   (lit (u ''t'' @ [ch_e_caron]), repl ([ch_t_caron] @ u ''e'')),
   (lit (u ''n'' @ [ch_e_caron]), repl ([ch_n_caron] @ u ''e'')),
   (lit (u ''m'' @ [ch_e_caron]), repl (u ''m'' @ [ch_n_caron] @ u ''e'')),
   (lit [ch_e_caron], repl (u ''je''))]"

definition e_caron :: "ustr \<Rightarrow> ustr" where
  "e_caron string = apply_rules e_caron_rules string"

definition i_i_acute_rules :: "rule list" where
  "i_i_acute_rules =
   [(lit (u ''di''), repl ([ch_d_caron] @ u ''i'')),
   (lit (u ''ti''), repl ([ch_t_caron] @ u ''i'')),
   (lit (u ''ni''), repl ([ch_n_caron] @ u ''i'')),
   (lit (u ''d'' @ [ch_i_acute]), repl [ch_d_caron, ch_i_acute]),
   (lit (u ''t'' @ [ch_i_acute]), repl [ch_t_caron, ch_i_acute]),
   (lit (u ''n'' @ [ch_i_acute]), repl [ch_n_caron, ch_i_acute])]"

definition i_i_acute :: "ustr \<Rightarrow> ustr" where
  "i_i_acute string = apply_rules i_i_acute_rules string"

definition collapse_expand_rules :: "rule list" where
  "collapse_expand_rules =
   [(lit (u ''x''), repl (u ''ks'')),
   (lit (u ''q'') @ [Opt (any_of (u ''u''))], repl (u ''kv'')),
   (lit (u ''ch''), repl (u ''x'')),
   (lit (u ''dz''), repl [ch_ezh]),
   (lit (u ''d'' @ [ch_z_caron]), repl [ch_lezh])]"

definition collapse_expand :: "ustr \<Rightarrow> ustr" where
  "collapse_expand string = apply_rules collapse_expand_rules string"

definition foreign_rules :: "rule list" where
  "foreign_rules =
   [(lit (u ''w''), repl (u ''v''))]"

definition foreign :: "ustr \<Rightarrow> ustr" where
  "foreign string = apply_rules foreign_rules string"

definition unify_rules :: "rule list" where
  "unify_rules =
   [(lit [ch_u_ring], repl [ch_u_acute]),
   (lit (u ''y''), repl (u ''i'')),
   (lit [ch_y_acute], repl [ch_i_acute])]"

definition unify :: "ustr \<Rightarrow> ustr" where
  "unify string = apply_rules unify_rules string"

definition heuristic_rules :: "rule list" where
  "heuristic_rules =
   [(lit (u ''nk''), repl ([ch_eng] @ u ''k'')),
   (lit (u ''ng''), repl ([ch_eng] @ u ''g'')),
   (lit (u ''mv''), repl ([ch_m_hook] @ u ''v'')),
   (lit (u ''mf''), repl ([ch_m_hook] @ u ''f'')),
   (lit (u ''n'' @ [ch_t_caron]), repl [ch_n_caron, ch_t_caron]),
   (lit (u ''n'' @ [ch_d_caron]), repl [ch_n_caron, ch_d_caron]),
   (lit (u ''n'' @ [ch_n_caron]), repl [ch_n_caron]),
   (lit (u ''cc''), repl (u ''c'')),
   (lit (u ''dd''), repl (u ''d'')),
   (lit (u ''jj''), repl (u ''j'')),
   (lit (u ''kk''), repl (u ''k'')),
   (lit (u ''ll''), repl (u ''l'')),
   (lit (u ''nn''), repl (u ''n'')),
   (lit (u ''mm''), repl (u ''m'')),
   (lit (u ''ss''), repl (u ''s'')),
   (lit (u ''tt''), repl (u ''t'')),
   (lit (u ''zz''), repl (u ''z'')),
   (lit [ch_c_caron, ch_c_caron], repl [ch_c_caron]),
   (lit [ch_s_caron, ch_s_caron], repl [ch_s_caron])]"

definition heuristic :: "ustr \<Rightarrow> ustr" where
  "heuristic string = apply_rules heuristic_rules string"

definition hiatus_rules :: "rule list" where
  "hiatus_rules =
   [([Grp (any_of (u ''i'' @ [ch_i_acute]))] @ [Grp (any_of (u ''aeiou'' @ [ch_a_acute, ch_e_acute, ch_i_acute, ch_o_acute, ch_u_acute]))], [TRef 1] @ repl (u ''j'') @ [TRef 2])]"

definition hiatus :: "ustr \<Rightarrow> ustr" where
  "hiatus string = apply_rules hiatus_rules string"

definition init_scp_rules :: "unicode_db \<Rightarrow> rule list" where
  "init_scp_rules db =
   [(lit (u ''ccitt''), repl (u ''c'' @ [ch_e_acute] @ u ''c'' @ [ch_e_acute, ch_i_acute] @ u ''t'' @ [ch_e_acute] @ u ''t'' @ [ch_e_acute])),
   (lit (u ''nism''), repl (u ''nyzm'')),
   (lit (u ''nist''), repl (u ''nyst'')),
   (lit (u ''anti''), repl (u ''anty'')),
   (lit (u ''akti''), repl (u ''akty'')),
   (lit (u ''atik''), repl (u ''atyk'')),
   (lit (u ''tick''), repl (u ''tyck'')),
   (lit (u ''kandi''), repl (u ''kandy'')),
   (lit (u ''nie''), repl (u ''nye'')),
   (lit (u ''nii''), repl (u ''nyi'')),
   (lit (u ''arkti''), repl (u ''arkty'')),
   (lit (u ''atrakti''), repl (u ''atrakty'')),
   (lit (u ''audi''), repl (u ''audy'')),
   (lit (u ''automati''), repl (u ''automaty'')),
   (lit (u ''causa''), repl (u ''kauza'')),
   (lit (u ''celsia''), repl (u ''celzia'')),
   (lit (u ''chil''), repl ([ch_c_caron] @ u ''il'')),
   (lit (u ''danih''), repl (u ''danyh'')),
   (lit (u ''efektiv''), repl (u ''efektyv'')),
   (lit (u ''finiti''), repl (u ''finyty'')),
   (lit (u ''dealer''), repl (u ''d'' @ [ch_y_acute] @ u ''ler'')),
   (lit (u ''diag''), repl (u ''dyag'')),
   (lit (u ''diet''), repl (u ''dyet'')),
   (lit (u ''dif''), repl (u ''dyf'')),
   (lit (u ''dig''), repl (u ''dyg'')),
   (lit (u ''dikt''), repl (u ''dykt'')),
   (lit (u ''dilet''), repl (u ''dylet'')),
   (lit (u ''dipl''), repl (u ''dypl'')),
   (lit (u ''dirig''), repl (u ''dyryg'')),
   (lit (u ''disk''), repl (u ''dysk'')),
   (lit (u ''display''), repl (u ''dysplej'')),
   (lit (u ''disp''), repl (u ''dysp'')),
   (lit (u ''dist''), repl (u ''dyst'')),
   (lit (u ''divide''), repl (u ''dyvide'')),
   (lit (u ''dukti''), repl (u ''dukty'')),
   (lit (u ''edic''), repl (u ''edyc'')),
   (lit (u ''error''), repl (u ''eror'')),
   ([Bnd (word db)] @ lit (u ''ex'') @ [Grp (any_of (u ''aeiou'' @ [ch_a_acute, ch_e_acute, ch_i_acute, ch_o_acute, ch_u_acute, ch_u_ring]))], repl (u ''egz'') @ [TRef 1]),
   (lit (u ''elektroni''), repl (u ''elektrony'')),
   (lit (u ''energetik''), repl (u ''energetyk'')),
   (lit (u ''etik''), repl (u ''etyk'')),
   (lit (u ''femini''), repl (u ''feminy'')),
   (lit (u ''fini'' @ [ch_s_caron]), repl (u ''finy'' @ [ch_s_caron])),
   (lit (u ''monie''), repl (u ''monye'')),
   (lit (u ''geneti''), repl (u ''genety'')),
   (lit (u ''gieni''), repl (u ''gieny'')),
   (lit (u ''imuni''), repl (u ''imuny'')),
   (lit (u ''indiv''), repl (u ''indyv'')),
   (lit (u ''inici''), repl (u ''inyci'')),
   (lit (u ''investi''), repl (u ''investy'')),
   (lit (u ''karati''), repl (u ''karaty'')),
   (lit (u ''kardi''), repl (u ''kardy'')),
   (lit (u ''klaus''), repl (u ''klauz'')),
   (lit (u ''komuni''), repl (u ''komuny'')),
   (lit (u ''kondi''), repl (u ''kondy'')),
   (lit (u ''kredit''), repl (u ''kredyt'')),
   (lit (u ''kriti''), repl (u ''krity'')),
   (lit (u ''komodit''), repl (u ''komodyt'')),
   (lit (u ''konsor''), repl (u ''konzor'')),
   (lit (u ''leasing''), repl (u ''l'' @ [ch_i_acute] @ u ''zing'')),
   (lit (u ''giti''), repl (u ''gity'')),
   (lit (u ''medi''), repl (u ''medy'')),
   (lit (u ''motiv''), repl (u ''motyv'')),
   (lit (u ''manag''), repl (u ''mened'' @ [ch_z_caron])),
   (lit (u ''nsti''), repl (u ''nsty'')),
   (lit (u ''temati''), repl (u ''tematy'')),
   (lit (u ''mini''), repl (u ''miny'')),
   (lit (u ''minus''), repl (u ''m'' @ [ch_i_acute] @ u ''nus'')),
   (lit (u ''ing''), repl (u ''yng'')),
   (lit (u ''gativ''), repl (u ''gatyv'')),
   (lit (u ''mati''), repl (u ''maty'')),
   (lit (u ''manip''), repl (u ''manyp'')),
   (lit (u ''moderni''), repl (u ''moderny'')),
   (lit (u ''organi''), repl (u ''organy'')),
   (lit (u ''optim''), repl (u ''optym'')),
   (lit (u ''panick''), repl (u ''panyck'')),
   (lit (u ''pediatr''), repl (u ''pedyatr'')),
   (lit (u ''perviti''), repl (u ''pervity'')),
   (lit (u ''politi''), repl (u ''polity'')),
   (lit (u ''pozit''), repl (u ''pozyt'')),
   (lit (u ''privati''), repl (u ''privaty'')),
   (lit (u ''prostitu''), repl (u ''prostytu'')),
   (lit (u ''radik''), repl (u ''radyk'')),
   ([Bnd (word db)] @ lit (u ''radio''), repl (u ''radyo'')),
   (lit (u ''relativ''), repl (u ''relatyv'')),
   (lit (u ''restitu''), repl (u ''restytu'')),
   (lit (u ''rock''), repl (u ''rok'')),
   (lit (u ''rutin''), repl (u ''rutyn'')),
   ([Bnd (word db)] @ lit (u ''r'' @ [ch_a_acute] @ u ''di'') @ [Grp (non_space db)], repl (u ''r'' @ [ch_a_acute] @ u ''dy'') @ [TRef 1]),
   (lit (u ''shop''), repl ([ch_s_caron] @ u ''op'')),
   ([Bnd (word db)] @ lit (u ''sho''), repl (u ''scho'')),
   (lit (u ''softwar''), repl (u ''softv'' @ [ch_e_acute] @ u ''r'')),
   (lit (u ''sortim''), repl (u ''sortym'')),
   (lit (u ''spektiv''), repl (u ''spektyv'')),
   (lit (u ''superlativ''), repl (u ''superlatyv'')),
   (lit (u ''nj''), repl [ch_n_caron]),
   (lit (u ''statisti''), repl (u ''statysty'')),
   (lit (u ''stik''), repl (u ''styk'')),
   (lit (u ''stimul''), repl (u ''stymul'')),
   (lit (u ''studi''), repl (u ''study'')),
   (lit (u ''techni''), repl (u ''techny'')),
   (lit (u ''telecom''), repl (u ''telekom'')),
   (lit (u ''telefoni''), repl (u ''telefony'')),
   (lit (u ''tetik''), repl (u ''tetyk'')),
   (lit (u ''textil''), repl (u ''textyl'')),
   (lit (u ''tibet''), repl (u ''tybet'')),
   (lit (u ''tirany''), repl (u ''tyrany'')),
   (lit (u ''titul''), repl (u ''tytul'')),
   (lit (u ''tradi''), repl (u ''trady'')),
   (lit (u ''univer''), repl (u ''unyver'')),
   (lit (u ''venti''), repl (u ''venty'')),
   (lit (u ''vertik''), repl (u ''vertyk''))]"

definition init_scp :: "unicode_db \<Rightarrow> ustr \<Rightarrow> ustr" where
  "init_scp db string = apply_rules (init_scp_rules db) string"

definition postprocess_rules :: "rule list" where
  "postprocess_rules =
   [(lit [ch_lezh], repl [ch_ezh, ch_ezh]),
   (lit (u ''x''), repl (u ''ch''))]"

definition postprocess :: "ustr \<Rightarrow> ustr" where
  "postprocess string = apply_rules postprocess_rules string"
subsection \<open>Voicing assimilation\<close>

definition trigger_devoicing :: ustr where
  "trigger_devoicing = u ''pt'' @ [ch_t_caron] @ u ''ks'' @ [ch_s_caron] @ u ''c'' @ [ch_c_caron] @ u ''xxf''"

definition devoiced :: ustr where
  "devoiced = trigger_devoicing"

definition trigger_voicing :: ustr where
  "trigger_voicing = u ''bd'' @ [ch_d_caron] @ u ''gz'' @ [ch_z_caron, ch_ezh, ch_lezh] @ u ''h'' @ [ch_gamma]"

definition voiced :: ustr where
  "voiced = trigger_voicing @ u ''v''"

datatype error = IndexError | UnboundLocalError | ValueError | ReError

definition maketrans :: "ustr \<Rightarrow> ustr \<Rightarrow> error + (uchar \<rightharpoonup> uchar)" where
  \<comment> \<open>\<open>str.maketrans(x, y)\<close>: a dictionary from each character of \<open>x\<close> to the character
      of \<open>y\<close> at the same position, a later entry replacing an earlier one with the same
      key; strings of different lengths are refused\<close>
  "maketrans x y =
     (if length x \<noteq> length y then Inl ValueError
      else Inr (fold (\<lambda>(k, v) m. m(k \<mapsto> v)) (zip x y) Map.empty))"

definition table :: "error + (uchar \<rightharpoonup> uchar) \<Rightarrow> (uchar \<rightharpoonup> uchar)" where
  \<comment> \<open>the dictionary of a class attribute; the two calls of the class body succeed
      (\<open>maketrans_succeeds\<close> below)\<close>
  "table r = (case r of Inl _ \<Rightarrow> Map.empty | Inr m \<Rightarrow> m)"

definition devoiced2voiced :: "uchar \<rightharpoonup> uchar" where
  "devoiced2voiced = table (maketrans devoiced voiced)"

definition voiced2devoiced :: "uchar \<rightharpoonup> uchar" where
  "voiced2devoiced = table (maketrans voiced devoiced)"

definition translate :: "(uchar \<rightharpoonup> uchar) \<Rightarrow> uchar \<Rightarrow> uchar" where
  \<comment> \<open>\<open>char.translate(table)\<close> on a string of one character: a character without an
      entry stays\<close>
  "translate m c = (case m c of None \<Rightarrow> c | Some v \<Rightarrow> v)"

text \<open>
  The state of the loop of \<open>_voicing_assim\<close>: \<open>result\<close> and \<open>previous_phone\<close>, which is
  unbound (\<open>None\<close>) until the first iteration assigns it. Reading it while unbound, and
  reading \<open>result[1]\<close> of a one-character result, raise.
\<close>

type_synonym assim_state = "ustr \<times> uchar option"

definition word_final :: "ustr \<Rightarrow> uchar \<Rightarrow> uchar" where
  \<comment> \<open>the first \<open>if\<close> of the loop body: at the end of a word a voiced character is devoiced\<close>
  "word_final result char =
     (if result \<noteq> [] \<and> hd result = sp \<and> char \<in> set voiced
      then translate voiced2devoiced char else char)"

definition prepend :: "ustr \<Rightarrow> uchar option \<Rightarrow> uchar \<Rightarrow> error + ustr" where
  \<comment> \<open>the \<open>if\<close>/\<open>elif\<close> chain of the loop body: the new value of \<open>result\<close>\<close>
  "prepend result previous_phone char =
     (if result = [] \<and> char \<in> set voiced then Inr [translate voiced2devoiced char]
      else if result = [] then Inr [char]
      else (case previous_phone of
              None \<Rightarrow> Inl UnboundLocalError
            | Some pp \<Rightarrow>
                if pp \<in> set trigger_devoicing \<and> char \<in> set voiced
                then Inr (translate voiced2devoiced char # result)
                else if pp \<in> set trigger_voicing \<and> char \<in> set devoiced
                then Inr (translate devoiced2voiced char # result)
                else Inr (char # result)))"

definition next_phone :: "ustr \<Rightarrow> error + uchar" where
  \<comment> \<open>\<open>result[1] if result[0] == " " else result[0]\<close>\<close>
  "next_phone result =
     (case result of
        [] \<Rightarrow> Inl IndexError
      | a # rest \<Rightarrow>
          if a = sp then (case rest of [] \<Rightarrow> Inl IndexError | b # _ \<Rightarrow> Inr b)
          else Inr a)"

definition assim_step :: "assim_state \<Rightarrow> uchar \<Rightarrow> error + assim_state" where
  "assim_step st char =
     (case prepend (fst st) (snd st) (word_final (fst st) char) of
        Inl e \<Rightarrow> Inl e
      | Inr result \<Rightarrow>
          (case next_phone result of
             Inl e \<Rightarrow> Inl e
           | Inr previous_phone \<Rightarrow> Inr (result, Some previous_phone)))"

fun assim_loop :: "assim_state \<Rightarrow> ustr \<Rightarrow> error + assim_state" where
  "assim_loop st [] = Inr st"
| "assim_loop st (c # cs) =
     (case assim_step st c of Inl e \<Rightarrow> Inl e | Inr st' \<Rightarrow> assim_loop st' cs)"

definition voicing_assim :: "ustr \<Rightarrow> error + ustr" where
  \<comment> \<open>\<open>for char in reversed(string)\<close>, starting from the empty result\<close>
  "voicing_assim string =
     (case assim_loop ([], None) (rev string) of Inl e \<Rightarrow> Inl e | Inr st \<Rightarrow> Inr (fst st))"

subsection \<open>The pipeline and the constructor\<close>

definition transcribe :: "unicode_db \<Rightarrow> ustr \<Rightarrow> error + ustr" where
  "transcribe db ort_string =
     (let fon = normalize db ort_string;
          fon = init_scp db fon;
          fon = foreign fon;
          fon = collapse_expand fon;
          fon = e_caron fon;
          fon = i_i_acute fon
      in case voicing_assim fon of
           Inl e \<Rightarrow> Inl e
         | Inr fon \<Rightarrow>
             (let fon = unify fon;
                  fon = hiatus fon;
                  fon = heuristic fon
              in Inr (postprocess fon)))"

text \<open>
  \<open>Transcription\<close> subclasses \<open>str\<close>: the object is the string it was constructed from
  (\<open>str_value\<close>) with the two attributes \<open>ort\<close> and \<open>fon\<close> that \<open>__init__\<close> sets.
\<close>

record transcription =
  str_value :: ustr
  ort :: ustr
  fon :: ustr

definition Transcription :: "unicode_db \<Rightarrow> ustr \<Rightarrow> error + transcription" where
  "Transcription db ort_string =
     (case transcribe db ort_string of
        Inl e \<Rightarrow> Inl e
      | Inr f \<Rightarrow> Inr \<lparr>str_value = ort_string, ort = ort_string, fon = f\<rparr>)"

section \<open>Auxiliary notions\<close>

text \<open>
  The loop of \<open>_voicing_assim\<close> read as a pure computation: \<open>phone r\<close> is the value of
  \<open>previous_phone\<close> once \<open>r\<close> is the result, \<open>emit r c\<close> the character the loop body
  prepends to a non-empty result \<open>r\<close> on reading \<open>c\<close>, and \<open>run r cs\<close> the result after
  reading the characters \<open>cs\<close>. The lemmas \<open>assim_step_nonempty\<close> and
  \<open>assim_loop_run\<close> relate them to the loop.
\<close>

fun phone :: "ustr \<Rightarrow> uchar" where
  "phone (a # b # r) = (if a = sp then b else a)"
| "phone [a] = a"
| "phone [] = sp"

definition emit :: "ustr \<Rightarrow> uchar \<Rightarrow> uchar" where
  "emit r c =
     (let char = (if hd r = sp \<and> c \<in> set voiced then translate voiced2devoiced c else c)
      in if phone r \<in> set trigger_devoicing \<and> char \<in> set voiced then translate voiced2devoiced char
         else if phone r \<in> set trigger_voicing \<and> char \<in> set devoiced then translate devoiced2voiced char
         else char)"

definition run :: "ustr \<Rightarrow> ustr \<Rightarrow> ustr" where
  "run r cs = foldl (\<lambda>r c. emit r c # r) r cs"

definition utterance_final :: "uchar \<Rightarrow> uchar" where
  \<comment> \<open>what the first iteration makes of the last character of the string\<close>
  "utterance_final c = (if c \<in> set voiced then translate voiced2devoiced c else c)"

text \<open>
  The pairs of a voiced character and its devoiced counterpart, written out:
  \<open>b/p\<close>, \<open>d/t\<close>, \<open>d-caron/t-caron\<close>, \<open>g/k\<close>, \<open>z/s\<close>, \<open>z-caron/s-caron\<close>, \<open>ezh/c\<close>,
  \<open>lezh/c-caron\<close>, \<open>h/x\<close>, \<open>gamma/x\<close>, \<open>v/f\<close>.
\<close>

definition devoicing_pairs :: "(uchar \<times> uchar) list" where
  "devoicing_pairs =
     [(0x62, 0x70), (0x64, 0x74), (ch_d_caron, ch_t_caron), (0x67, 0x6B), (0x7A, 0x73),
      (ch_z_caron, ch_s_caron), (ch_ezh, 0x63), (ch_lezh, ch_c_caron), (0x68, 0x78),
      (ch_gamma, 0x78), (0x76, 0x66)]"

text \<open>
  The relation the closure property needs between an input character \<open>c\<close> and the
  character \<open>x\<close> emitted for it: unchanged, or one of the two translations, or the one
  double translation that is not the identity (\<open>h\<close> devoiced to \<open>x\<close> and voiced again).
\<close>

definition closure_rel :: "uchar \<Rightarrow> uchar \<Rightarrow> bool" where
  "closure_rel c x =
     (x = c \<or> x = translate voiced2devoiced c \<or> x = translate devoiced2voiced c
      \<or> (c = 0x68 \<and> x = ch_gamma))"

text \<open>
  Static properties of a rule: \<open>grp_classes p\<close> lists the classes of the groups of a
  pattern, \<open>refs_ok\<close> says that the template refers to existing groups only (so that
  \<open>re.sub\<close> does not reject it), \<open>consumes p\<close> that a match of \<open>p\<close> is never empty, and
  \<open>end_safe\<close> that the text a rule writes cannot end in a space. \<open>ends_ok s\<close> is what
  \<open>_voicing_assim\<close> needs of its input.
\<close>

fun grp_classes :: "item list \<Rightarrow> cclass list" where
  "grp_classes [] = []"
| "grp_classes (Grp c # p) = c # grp_classes p"
| "grp_classes (_ # p) = grp_classes p"

fun consumes :: "item list \<Rightarrow> bool" where
  "consumes [] = False"
| "consumes (One _ # _) = True"
| "consumes (Grp _ # _) = True"
| "consumes (Plus _ # _) = True"
| "consumes (_ # p) = consumes p"

fun ref_ok :: "item list \<Rightarrow> tok \<Rightarrow> bool" where
  "ref_ok p (TChr _) = True"
| "ref_ok p (TRef k) = (1 \<le> k \<and> k \<le> length (grp_classes p))"

definition refs_ok :: "rule \<Rightarrow> bool" where
  "refs_ok r = list_all (ref_ok (fst r)) (snd r)"

text \<open>
  The one way a call of \<open>re.sub\<close> with a valid pattern can raise on a string: the
  template is parsed before the string is scanned, and a reference to a group that the
  pattern does not have is refused with \<open>re.error\<close>. \<open>re_sub_err\<close> is \<open>re.sub\<close> with this
  failure, \<open>apply_rules_err\<close> a chain of such calls that stops at the first failure,
  and \<open>normalize_err\<close> the normalizer built on them (\<open>casefold\<close> and \<open>strip\<close> do not
  raise on a string).
\<close>

definition re_sub_err :: "item list \<Rightarrow> tok list \<Rightarrow> ustr \<Rightarrow> error + ustr" where
  "re_sub_err p t s = (if refs_ok (p, t) then Inr (re_sub p t s) else Inl ReError)"

fun apply_rules_err :: "rule list \<Rightarrow> ustr \<Rightarrow> error + ustr" where
  "apply_rules_err [] s = Inr s"
| "apply_rules_err (r # rs) s =
     (case re_sub_err (fst r) (snd r) s of Inl e \<Rightarrow> Inl e | Inr s' \<Rightarrow> apply_rules_err rs s')"

definition normalize_err :: "unicode_db \<Rightarrow> ustr \<Rightarrow> error + ustr" where
  "normalize_err db string =
     (case re_sub_err [Grp (word db), Grp (non_word db)] [TRef 1, TChr sp, TRef 2] (casefold db string) of
        Inl e \<Rightarrow> Inl e
      | Inr s1 \<Rightarrow>
          (case re_sub_err [Grp (non_word db), Grp (word db)] [TRef 1, TChr sp, TRef 2] s1 of
             Inl e \<Rightarrow> Inl e
           | Inr s2 \<Rightarrow>
               (case re_sub_err [Plus (space db)] [TChr sp] s2 of
                  Inl e \<Rightarrow> Inl e
                | Inr s3 \<Rightarrow> Inr (strip db s3))))"

fun tok_safe :: "item list \<Rightarrow> tok \<Rightarrow> bool" where
  "tok_safe p (TChr c) = (c \<noteq> sp)"
| "tok_safe p (TRef k) = (1 \<le> k \<and> k \<le> length (grp_classes p) \<and> list_all (\<lambda>cl. \<not> cl sp) (grp_classes p))"

definition well_formed :: "rule \<Rightarrow> bool" where
  "well_formed r = (refs_ok r \<and> consumes (fst r))"

definition end_safe :: "rule \<Rightarrow> bool" where
  "end_safe r = (snd r \<noteq> [] \<and> tok_safe (fst r) (last (snd r)))"

definition ends_ok :: "ustr \<Rightarrow> bool" where
  "ends_ok s = (s = [] \<or> last s \<noteq> sp)"

text \<open>
  A concrete instance of the tables, for evaluating the program on examples. Its
  \<open>isalnum\<close> and \<open>isspace\<close> are Unicode's up to U+02AF (Basic Latin to IPA Extensions),
  its case folding is Unicode's up to U+00FF; beyond these ranges nothing is a letter or
  whitespace and every character folds to itself.
\<close>

definition sample_db :: unicode_db where
  "sample_db =
     \<lparr>isalnum = (\<lambda>c. (0x30 \<le> c \<and> c \<le> 0x39) \<or> (0x41 \<le> c \<and> c \<le> 0x5A) \<or> (0x61 \<le> c \<and> c \<le> 0x7A)
                     \<or> c = 0xAA \<or> c = 0xB2 \<or> c = 0xB3 \<or> c = 0xB5 \<or> c = 0xB9 \<or> c = 0xBA
                     \<or> (0xBC \<le> c \<and> c \<le> 0xBE) \<or> (0xC0 \<le> c \<and> c \<le> 0xD6)
                     \<or> (0xD8 \<le> c \<and> c \<le> 0xF6) \<or> (0xF8 \<le> c \<and> c \<le> 0x2AF)),
      isspace = (\<lambda>c. (0x09 \<le> c \<and> c \<le> 0x0D) \<or> (0x1C \<le> c \<and> c \<le> 0x20) \<or> c = 0x85 \<or> c = 0xA0),
      casefold1 = (\<lambda>c. if (0x41 \<le> c \<and> c \<le> 0x5A) \<or> (0xC0 \<le> c \<and> c \<le> 0xD6) \<or> (0xD8 \<le> c \<and> c \<le> 0xDE)
                        then [c + 0x20]
                        else if c = 0xB5 then [0x3BC]
                        else if c = 0xDF then [0x73, 0x73]
                        else [c])\<rparr>"

text \<open>
  The substitutions of the normalizer as direct recursions, for the proofs about it
  (\<open>re_sub_at_pair\<close>, \<open>re_sub_at_plus\<close> and \<open>sep_sep_ins\<close> relate them to \<open>re_sub\<close>):
  \<open>sep A B\<close> puts a space into every match of the two-character pattern \<open>(A)(B)\<close>,
  \<open>squeeze S\<close> replaces every maximal run of \<open>S\<close> characters by one space, and
  \<open>ins W\<close> puts a space between any two neighbours of which exactly one is in \<open>W\<close>.
  \<open>loose\<close> and \<open>tight\<close> describe the neighbours in a string after the insertion and
  after the squeezing.
\<close>

fun sep :: "cclass \<Rightarrow> cclass \<Rightarrow> ustr \<Rightarrow> ustr" where
  "sep A B (a # b # r) = (if A a \<and> B b then a # sp # b # sep A B r else a # sep A B (b # r))"
| "sep A B r = r"

function squeeze :: "cclass \<Rightarrow> ustr \<Rightarrow> ustr" where
  "squeeze S [] = []"
| "squeeze S (a # r) = (if S a then sp # squeeze S (dropWhile S r) else a # squeeze S r)"
  by pat_completeness auto
termination
  by (relation "measure (\<lambda>(S, s). length s)") (auto simp add: length_dropWhile_le less_Suc_eq_le)

fun gap :: "cclass \<Rightarrow> uchar \<Rightarrow> ustr \<Rightarrow> ustr" where
  "gap W a [] = []"
| "gap W a (b # r) = (if W a \<noteq> W b then [sp] else [])"

fun ins :: "cclass \<Rightarrow> ustr \<Rightarrow> ustr" where
  "ins W [] = []"
| "ins W (a # r) = a # gap W a r @ ins W r"


definition loose :: "cclass \<Rightarrow> uchar \<Rightarrow> uchar \<Rightarrow> bool" where
  "loose W a b = (W a = W b \<or> a = sp \<or> b = sp)"

definition tight :: "cclass \<Rightarrow> cclass \<Rightarrow> uchar \<Rightarrow> uchar \<Rightarrow> bool" where
  "tight W S a b = ((S a \<longrightarrow> a = sp \<and> \<not> S b) \<and> (S b \<longrightarrow> b = sp) \<and> (W a \<noteq> W b \<longrightarrow> S a \<or> S b))"


text \<open>The sentence of the repository's test \<open>test_complex\<close> and the transcription it expects.\<close>

definition test_ort :: ustr where
  "test_ort = u ''h'' @ [ch_r_caron, ch_i_acute] @ u ''ch by za ty choutky st'' @ [ch_a_acute]
     @ u ''l le'' @ [ch_c_caron] @ u '' dob'' @ [ch_r_caron] @ u ''e''"

definition test_fon :: ustr where
  "test_fon = u ''h'' @ [ch_r_caron, ch_i_acute, ch_gamma] @ u '' bi za ti choutki st'' @ [ch_a_acute]
     @ u ''l le'' @ [ch_ezh, ch_ezh] @ u '' dob'' @ [ch_r_caron] @ u ''e''"

section \<open>The translation tables\<close>

lemma u_simps: "u [] = []" "u (c # cs) = of_char c # u cs"
  by (simp_all add: u_def)

lemma trigger_devoicing_eq: "trigger_devoicing = [0x70, 0x74, 0x165, 0x6B, 0x73, 0x161, 0x63, 0x10D, 0x78, 0x78, 0x66]"
  by (simp add: trigger_devoicing_def u_simps)

lemma devoiced_eq: "devoiced = [0x70, 0x74, 0x165, 0x6B, 0x73, 0x161, 0x63, 0x10D, 0x78, 0x78, 0x66]"
  by (simp add: devoiced_def trigger_devoicing_eq)

lemma trigger_voicing_eq: "trigger_voicing = [0x62, 0x64, 0x10F, 0x67, 0x7A, 0x17E, 0x292, 0x26E, 0x68, 0x263]"
  by (simp add: trigger_voicing_def u_simps)

lemma voiced_eq: "voiced = [0x62, 0x64, 0x10F, 0x67, 0x7A, 0x17E, 0x292, 0x26E, 0x68, 0x263, 0x76]"
  by (simp add: voiced_def trigger_voicing_eq u_simps)

lemma maketrans_succeeds:
  "maketrans devoiced voiced \<noteq> Inl ValueError" "maketrans voiced devoiced \<noteq> Inl ValueError"
  by (simp_all add: maketrans_def devoiced_eq voiced_eq)

lemma v2d_eq:
  "translate voiced2devoiced c =
    (if c = 0x62 then 0x70 else if c = 0x64 then 0x74 else if c = 0x10F then 0x165
     else if c = 0x67 then 0x6B else if c = 0x7A then 0x73 else if c = 0x17E then 0x161
     else if c = 0x292 then 0x63 else if c = 0x26E then 0x10D else if c = 0x68 then 0x78
     else if c = 0x263 then 0x78 else if c = 0x76 then 0x66 else c)"
  by (simp add: translate_def voiced2devoiced_def table_def maketrans_def devoiced_eq voiced_eq)

lemma d2v_eq:
  "translate devoiced2voiced c =
    (if c = 0x70 then 0x62 else if c = 0x74 then 0x64 else if c = 0x165 then 0x10F
     else if c = 0x6B then 0x67 else if c = 0x73 then 0x7A else if c = 0x161 then 0x17E
     else if c = 0x63 then 0x292 else if c = 0x10D then 0x26E
     else if c = 0x78 then 0x263 else if c = 0x66 then 0x76 else c)"
  by (simp add: translate_def devoiced2voiced_def table_def maketrans_def devoiced_eq voiced_eq)

lemma v2d_devoiced: "c \<in> set voiced \<Longrightarrow> translate voiced2devoiced c \<in> set devoiced"
  by (auto simp add: v2d_eq voiced_eq devoiced_eq)

lemma d2v_voiced: "c \<in> set devoiced \<Longrightarrow> translate devoiced2voiced c \<in> set voiced"
  by (auto simp add: d2v_eq voiced_eq devoiced_eq)

lemma voiced_devoiced_disjoint: "c \<in> set voiced \<Longrightarrow> c \<notin> set devoiced"
  by (auto simp add: voiced_eq devoiced_eq)

lemma sp_not_voiced: "sp \<notin> set voiced" "sp \<notin> set devoiced"
  by (simp_all add: voiced_eq devoiced_eq)

lemma trigger_voicing_voiced: "c \<in> set trigger_voicing \<Longrightarrow> c \<in> set voiced"
  by (simp add: voiced_def)

lemma v2d_other: "c \<notin> set voiced \<Longrightarrow> translate voiced2devoiced c = c"
  by (auto simp add: v2d_eq voiced_eq)

lemma d2v_other: "c \<notin> set devoiced \<Longrightarrow> translate devoiced2voiced c = c"
  by (auto simp add: d2v_eq devoiced_eq)

lemma d2v_v2d: "c \<in> set voiced \<Longrightarrow> translate devoiced2voiced (translate voiced2devoiced c) = (if c = 0x68 then 0x263 else c)"
  by (auto simp add: d2v_eq v2d_eq voiced_eq)

lemma v2d_d2v: "c \<in> set devoiced \<Longrightarrow> translate voiced2devoiced (translate devoiced2voiced c) = c"
  by (auto simp add: d2v_eq v2d_eq devoiced_eq)

text \<open>
  C6. The two tables are inverse to each other on the paired characters: every voiced
  character except \<open>h\<close> is recovered by devoicing and voicing again, and every devoiced
  character by voicing and devoicing again. (Both \<open>h\<close> and \<open>\<gamma>\<close> devoice to \<open>x\<close>, and the
  later entry of \<open>maketrans\<close> makes \<open>x\<close> voice to \<open>\<gamma>\<close>.)
\<close>

theorem tables_inverse_on_pairs:
  "(\<forall>c \<in> set voiced - {0x68}. translate devoiced2voiced (translate voiced2devoiced c) = c) \<and>
   (\<forall>c \<in> set devoiced. translate voiced2devoiced (translate devoiced2voiced c) = c)"
proof (intro conjI ballI)
  fix c assume "c \<in> set voiced - {0x68}"
  then show "translate devoiced2voiced (translate voiced2devoiced c) = c"
    by (simp add: d2v_v2d)
next
  fix c assume "c \<in> set devoiced"
  then show "translate voiced2devoiced (translate devoiced2voiced c) = c"
    by (rule v2d_d2v)
qed

theorem tables_inverse_on_pairs_witness:
  "ch_gamma \<in> set voiced - {0x68} \<and>
   translate devoiced2voiced (translate voiced2devoiced ch_gamma) = ch_gamma \<and>
   0x78 \<in> set devoiced \<and>
   translate voiced2devoiced (translate devoiced2voiced 0x78) = 0x78"
proof -
  have 1: "ch_gamma \<in> set voiced - {0x68}" by (simp add: voiced_eq)
  have 2: "0x78 \<in> set devoiced" by (simp add: devoiced_eq)
  show ?thesis
    using tables_inverse_on_pairs 1 2 by blast
qed

section \<open>The voicing assimilator\<close>

lemma word_final_Nil: "word_final [] c = c"
  by (simp add: word_final_def)

lemma prepend_Nil: "prepend [] pp c = Inr [utterance_final c]"
  by (simp add: prepend_def utterance_final_def)

lemma utterance_final_sp: "utterance_final c = sp \<longleftrightarrow> c = sp"
  using v2d_devoiced[of c] sp_not_voiced by (auto simp add: utterance_final_def)

lemma next_phone_single: "next_phone [a] = (if a = sp then Inl IndexError else Inr a)"
  by (simp add: next_phone_def)

lemma next_phone_phone: "r \<noteq> [] \<Longrightarrow> next_phone (x # r) = Inr (phone (x # r))"
  by (cases r) (simp_all add: next_phone_def)

lemma prepend_emit: "r \<noteq> [] \<Longrightarrow> prepend r (Some (phone r)) (word_final r c) = Inr (emit r c # r)"
  by (simp add: prepend_def emit_def word_final_def Let_def)

lemma assim_step_empty:
  "assim_step ([], pp) c = (if c = sp then Inl IndexError else Inr ([utterance_final c], Some (utterance_final c)))"
  by (simp add: assim_step_def word_final_Nil prepend_Nil next_phone_single utterance_final_sp)

lemma assim_step_nonempty:
  "r \<noteq> [] \<Longrightarrow> assim_step (r, Some (phone r)) c = Inr (emit r c # r, Some (phone (emit r c # r)))"
  by (simp add: assim_step_def prepend_emit next_phone_phone)

lemma run_Nil: "run r [] = r" by (simp add: run_def)
lemma run_Cons: "run r (c # cs) = run (emit r c # r) cs" by (simp add: run_def)


lemma assim_loop_run:
  "r \<noteq> [] \<Longrightarrow> assim_loop (r, Some (phone r)) cs = Inr (run r cs, Some (phone (run r cs)))"
proof (induction cs arbitrary: r)
  case Nil
  then show ?case by (simp add: run_Nil)
next
  case (Cons c cs)
  have "assim_loop (emit r c # r, Some (phone (emit r c # r))) cs
      = Inr (run (emit r c # r) cs, Some (phone (run (emit r c # r) cs)))"
    by (rule Cons.IH) simp
  then show ?case
    using Cons.prems by (simp add: assim_step_nonempty run_Cons)
qed

lemma voicing_assim_Nil: "voicing_assim [] = Inr []"
  by (simp add: voicing_assim_def)

lemma voicing_assim_snoc:
  "voicing_assim (ys @ [c]) = (if c = sp then Inl IndexError else Inr (run [utterance_final c] (rev ys)))"
proof -
  have "phone [utterance_final c] = utterance_final c" by simp
  then have "assim_loop ([utterance_final c], Some (utterance_final c)) (rev ys)
      = Inr (run [utterance_final c] (rev ys), Some (phone (run [utterance_final c] (rev ys))))"
    using assim_loop_run[of "[utterance_final c]" "rev ys"] by simp
  then show ?thesis
    by (simp add: voicing_assim_def assim_step_empty)
qed

lemma run_shape: "\<exists>pre. run r cs = pre @ r \<and> length pre = length cs"
proof (induction cs arbitrary: r)
  case Nil
  show ?case by (simp add: run_Nil)
next
  case (Cons c cs)
  from Cons.IH[of "emit r c # r"] obtain pre
    where "run (emit r c # r) cs = pre @ emit r c # r" "length pre = length cs"
    by blast
  then have "run r (c # cs) = (pre @ [emit r c]) @ r \<and> length (pre @ [emit r c]) = length (c # cs)"
    by (simp add: run_Cons)
  then show ?case by blast
qed

lemma last_run: "r \<noteq> [] \<Longrightarrow> last (run r cs) = last r"
  using run_shape[of r cs] by auto

lemma voicing_assim_returns_iff:
  "(\<exists>out. voicing_assim s = Inr out) \<longleftrightarrow> (s = [] \<or> last s \<noteq> sp)"
proof (cases s rule: rev_cases)
  case Nil
  then show ?thesis by (simp add: voicing_assim_Nil)
next
  case (snoc ys c)
  then show ?thesis by (simp add: voicing_assim_snoc)
qed

lemma voicing_assim_raises:
  "s \<noteq> [] \<Longrightarrow> last s = sp \<Longrightarrow> voicing_assim s = Inl IndexError"
  by (cases s rule: rev_cases) (simp_all add: voicing_assim_snoc)

lemma v2d_pairs: "c \<in> set voiced \<Longrightarrow> (c, translate voiced2devoiced c) \<in> set devoicing_pairs"
  by (auto simp add: v2d_eq voiced_eq devoicing_pairs_def)

lemma v2d_changes: "c \<in> set voiced \<Longrightarrow> translate voiced2devoiced c \<noteq> c"
  by (auto simp add: v2d_eq voiced_eq)

text \<open>
  C3. When the last character of a non-empty input is voiced, \<open>_voicing_assim\<close> returns
  a string of the same length whose last character is that character's devoiced
  counterpart: the two form one of the pairs \<open>b/p\<close>, \<open>d/t\<close>, \<open>g/k\<close>, \<open>z/s\<close>, \<open>h/x\<close>, \<open>v/f\<close> and
  so on, so the last character of the result is in the devoiced set and differs from
  the last character of the input.
\<close>

theorem utterance_final_devoicing:
  assumes "s \<noteq> []" and "last s \<in> set voiced"
  shows "\<exists>out. voicing_assim s = Inr out \<and> length out = length s \<and>
           (last s, last out) \<in> set devoicing_pairs \<and>
           last out = translate voiced2devoiced (last s) \<and>
           last out \<in> set devoiced \<and> last out \<noteq> last s"
proof -
  obtain ys c where s: "s = ys @ [c]" using assms(1) by (cases s rule: rev_cases) auto
  with assms(2) have c: "c \<in> set voiced" by simp
  then have "c \<noteq> sp" using sp_not_voiced by auto
  then have out: "voicing_assim s = Inr (run [utterance_final c] (rev ys))"
    by (simp add: s voicing_assim_snoc)
  have l: "last (run [utterance_final c] (rev ys)) = translate voiced2devoiced c"
    using c by (simp add: last_run utterance_final_def)
  obtain pre where "run [utterance_final c] (rev ys) = pre @ [utterance_final c]"
      "length pre = length (rev ys)"
    using run_shape[of "[utterance_final c]" "rev ys"] by blast
  then have len: "length (run [utterance_final c] (rev ys)) = length s"
    by (simp add: s)
  show ?thesis
    using out l len v2d_pairs[OF c] v2d_devoiced[OF c] v2d_changes[OF c] by (simp add: s)
qed

lemma v2d_not_voiced: "c \<in> set voiced \<Longrightarrow> translate voiced2devoiced c \<notin> set voiced"
  using v2d_devoiced[of c] voiced_devoiced_disjoint[of "translate voiced2devoiced c"] by blast

lemma emit_word_final:
  "hd r = sp \<Longrightarrow> c \<in> set voiced \<Longrightarrow>
   emit r c = (if phone r \<in> set trigger_voicing then translate devoiced2voiced (translate voiced2devoiced c)
               else translate voiced2devoiced c)"
  by (simp add: emit_def v2d_not_voiced v2d_devoiced)

lemma emit_inside:
  "\<not> (hd r = sp \<and> c \<in> set voiced) \<Longrightarrow>
   emit r c = (if phone r \<in> set trigger_devoicing \<and> c \<in> set voiced then translate voiced2devoiced c
               else if phone r \<in> set trigger_voicing \<and> c \<in> set devoiced then translate devoiced2voiced c
               else c)"
  by (simp add: emit_def)

lemma emit_closure: "closure_rel c (emit r c)"
proof (cases "hd r = sp \<and> c \<in> set voiced")
  case True
  then show ?thesis
    using d2v_v2d[of c] by (simp add: emit_word_final closure_rel_def)
next
  case False
  then show ?thesis
    by (simp add: emit_inside closure_rel_def)
qed

lemma utterance_final_closure: "closure_rel c (utterance_final c)"
  by (simp add: closure_rel_def utterance_final_def)

lemma run_closure: "\<exists>pre. run r cs = pre @ r \<and> list_all2 closure_rel (rev cs) pre"
proof (induction cs arbitrary: r)
  case Nil
  show ?case by (simp add: run_Nil)
next
  case (Cons c cs)
  from Cons.IH[of "emit r c # r"] obtain pre
    where "run (emit r c # r) cs = pre @ emit r c # r" "list_all2 closure_rel (rev cs) pre"
    by blast
  then have "run r (c # cs) = (pre @ [emit r c]) @ r \<and> list_all2 closure_rel (rev (c # cs)) (pre @ [emit r c])"
    by (simp add: run_Cons list_all2_appendI emit_closure)
  then show ?case by blast
qed

lemma voicing_assim_led: "voicing_assim (u ''led'') = Inr (u ''let'')"
  by code_simp

theorem utterance_final_devoicing_witness:
  "last (u ''led'') = 0x64 \<and> 0x64 \<in> set voiced \<and>
   voicing_assim (u ''led'') = Inr (u ''let'') \<and> length (u ''let'') = length (u ''led'') \<and>
   last (u ''let'') = 0x74 \<and> (0x64, 0x74) \<in> set devoicing_pairs \<and> 0x74 \<in> set devoiced"
proof -
  have 1: "u ''led'' \<noteq> []" and d: "last (u ''led'') = 0x64" and t: "last (u ''let'') = 0x74"
    by (simp_all add: u_simps)
  have v: "0x64 \<in> set voiced" by (simp add: voiced_eq)
  then have 2: "last (u ''led'') \<in> set voiced" by (simp only: d)
  show ?thesis
    using utterance_final_devoicing[OF 1 2] voicing_assim_led d t v by auto
qed

lemma voicing_assim_h_ba: "voicing_assim (u ''h ba'') = Inr (ch_gamma # u '' ba'')"
  by code_simp

text \<open>
  C4 as stated fails: \<open>h\<close> before a space that a voicing trigger follows is first
  devoiced to \<open>x\<close> and then voiced to \<open>\<gamma>\<close>, which is neither \<open>h\<close> nor a counterpart of
  \<open>h\<close> under either table.
\<close>

theorem voicing_closure_counterexample:
  "voicing_assim (0x68 # u '' ba'') = Inr (ch_gamma # u '' ba'') \<and>
   ch_gamma \<noteq> 0x68 \<and>
   ch_gamma \<noteq> translate voiced2devoiced 0x68 \<and>
   ch_gamma \<noteq> translate devoiced2voiced 0x68"
proof -
  have "voicing_assim (0x68 # u '' ba'') = Inr (ch_gamma # u '' ba'')"
    using voicing_assim_h_ba by (simp add: u_simps)
  then show ?thesis
    by (simp add: v2d_eq d2v_eq)
qed

text \<open>
  C4, amended. Whenever \<open>_voicing_assim\<close> returns, the output has the length of the
  input and at every position the output character is the input character, or its
  counterpart under one of the two tables, or \<open>\<gamma>\<close> where the input has \<open>h\<close>.
\<close>

theorem voicing_closure:
  assumes "voicing_assim s = Inr out"
  shows "length out = length s \<and> (\<forall>i < length s. closure_rel (s ! i) (out ! i))"
proof (cases s rule: rev_cases)
  case Nil
  with assms show ?thesis by (simp add: voicing_assim_Nil)
next
  case (snoc ys c)
  with assms have c: "c \<noteq> sp" and out: "out = run [utterance_final c] (rev ys)"
    by (auto simp add: voicing_assim_snoc split: if_splits)
  obtain pre where pre: "run [utterance_final c] (rev ys) = pre @ [utterance_final c]"
      "list_all2 closure_rel (rev (rev ys)) pre"
    using run_closure[of "[utterance_final c]" "rev ys"] by blast
  have "list_all2 closure_rel (ys @ [c]) (pre @ [utterance_final c])"
    using pre(2) by (simp add: list_all2_appendI utterance_final_closure)
  then have "list_all2 closure_rel s out"
    by (simp add: snoc out pre(1))
  then show ?thesis
    by (simp add: list_all2_conv_all_nth)
qed

theorem voicing_closure_witness:
  "voicing_assim (u ''h ba'') = Inr (ch_gamma # u '' ba'') \<and>
   length (ch_gamma # u '' ba'') = length (u ''h ba'') \<and>
   closure_rel (u ''h ba'' ! 0) ((ch_gamma # u '' ba'') ! 0) \<and>
   closure_rel (u ''h ba'' ! 2) ((ch_gamma # u '' ba'') ! 2)"
proof -
  have 0: "0 < length (u ''h ba'')" and 2: "2 < length (u ''h ba'')"
    by (simp_all add: u_simps)
  show ?thesis
    using voicing_closure[OF voicing_assim_h_ba] voicing_assim_h_ba 0 2 by blast
qed

lemma phone_in_set: "r \<noteq> [] \<Longrightarrow> phone r \<in> set r"
  by (induction r rule: phone.induct) auto

lemma emit_unvoiced:
  assumes "c \<notin> set voiced" and "phone r \<notin> set voiced"
  shows "emit r c = c"
  using assms trigger_voicing_voiced[of "phone r"] by (auto simp add: emit_inside)

lemma run_unvoiced:
  "r \<noteq> [] \<Longrightarrow> set r \<inter> set voiced = {} \<Longrightarrow> set cs \<inter> set voiced = {} \<Longrightarrow> run r cs = rev cs @ r"
proof (induction cs arbitrary: r)
  case Nil
  show ?case by (simp add: run_Nil)
next
  case (Cons c cs)
  have "phone r \<notin> set voiced"
    using phone_in_set[OF Cons.prems(1)] Cons.prems(2) by blast
  moreover have "c \<notin> set voiced"
    using Cons.prems(3) by auto
  ultimately have e: "emit r c = c" by (rule emit_unvoiced[rotated])
  have "run (c # r) cs = rev cs @ c # r"
    using Cons.prems \<open>c \<notin> set voiced\<close> by (intro Cons.IH) auto
  then show ?case by (simp add: run_Cons e)
qed

text \<open>
  C7. A string without any voiced character that does not end in a space (the empty
  string included) is returned unchanged by \<open>_voicing_assim\<close>.
\<close>

theorem unvoiced_unchanged:
  assumes "set s \<inter> set voiced = {}" and "s = [] \<or> last s \<noteq> sp"
  shows "voicing_assim s = Inr s"
proof (cases s rule: rev_cases)
  case Nil
  then show ?thesis by (simp add: voicing_assim_Nil)
next
  case (snoc ys c)
  with assms have c: "c \<noteq> sp" "c \<notin> set voiced" and ys: "set ys \<inter> set voiced = {}"
    by auto
  have "run [utterance_final c] (rev ys) = rev (rev ys) @ [utterance_final c]"
    using c ys by (intro run_unvoiced) (auto simp add: utterance_final_def)
  then show ?thesis
    using c by (simp add: snoc voicing_assim_snoc utterance_final_def)
qed

theorem unvoiced_unchanged_witness:
  "set (u ''kost pes'') \<inter> set voiced = {} \<and> last (u ''kost pes'') = 0x73 \<and>
   voicing_assim (u ''kost pes'') = Inr (u ''kost pes'')"
proof -
  have 1: "set (u ''kost pes'') \<inter> set voiced = {}" by (simp add: u_simps voiced_eq)
  have 3: "last (u ''kost pes'') = 0x73" by (simp add: u_simps)
  then have 2: "u ''kost pes'' = [] \<or> last (u ''kost pes'') \<noteq> sp" by simp
  show ?thesis
    using unvoiced_unchanged[OF 1 2] 1 3 by blast
qed






section \<open>The rule rewriter\<close>

lemma expand_repl: "expand (repl t) g = t"
  by (induction t) (simp_all add: expand_def repl_def)

lemma expand_append: "expand (t1 @ t2) g = expand t1 g @ expand t2 g"
  by (simp add: expand_def)

lemma re_sub_Nil: "re_sub p t [] = []"
  by (simp add: re_sub_def)

lemma apply_rules_Nil: "apply_rules rs [] = []"
  by (induction rs) (simp_all add: apply_rules_def re_sub_Nil split: prod.splits)

lemma apply_rules_Cons: "apply_rules ((p, t) # rs) s = apply_rules rs (re_sub p t s)"
  by (simp add: apply_rules_def)

lemma apply_rules_empty: "apply_rules [] s = s"
  by (simp add: apply_rules_def)

lemma rmatch_lit1: "rmatch (lit [a]) prev (x # xs) = (if x = a then Some (Suc 0, []) else None)"
  by (simp add: lit_def chr_def)

lemma re_sub_at_lit1:
  "re_sub_at (lit [a]) (repl t) prev s = concat (map (\<lambda>c. if c = a then t else [c]) s)"
proof (induction s arbitrary: prev)
  case Nil
  show ?case by simp
next
  case (Cons x xs)
  show ?case
    by (simp add: rmatch_lit1 expand_repl Cons.IH del: rmatch.simps)
qed

lemma re_sub_lit1: "re_sub (lit [a]) (repl t) s = concat (map (\<lambda>c. if c = a then t else [c]) s)"
  by (simp add: re_sub_def re_sub_at_lit1)

lemma subst1_absent: "a \<notin> set s \<Longrightarrow> concat (map (\<lambda>c. if c = a then t else [c]) s) = s"
  by (induction s) auto

lemma subst1_set: "set (concat (map (\<lambda>c. if c = a then t else [c]) s)) \<subseteq> (set s - {a}) \<union> set t"
  by (induction s) auto

lemma postprocess_eq:
  "postprocess s = concat (map (\<lambda>c. if c = 0x78 then [0x63, 0x68] else [c])
                     (concat (map (\<lambda>c. if c = ch_lezh then [ch_ezh, ch_ezh] else [c]) s)))"
  by (simp add: postprocess_def postprocess_rules_def apply_rules_Cons apply_rules_empty re_sub_lit1 u_simps)

text \<open>
  C8. The postprocessor is idempotent: its output contains neither of the two
  characters it replaces, so a second application changes nothing.
\<close>

theorem postprocess_idempotent: "postprocess (postprocess s) = postprocess s"
proof -
  define s1 where "s1 = concat (map (\<lambda>c. if c = ch_lezh then [ch_ezh, ch_ezh] else [c]) s)"
  define s2 where "s2 = concat (map (\<lambda>c. if c = 0x78 then [0x63, 0x68] else [c]) s1)"
  have "set s1 \<subseteq> (set s - {ch_lezh}) \<union> set [ch_ezh, ch_ezh]"
    unfolding s1_def by (rule subst1_set)
  then have 1: "ch_lezh \<notin> set s1" by auto
  have "set s2 \<subseteq> (set s1 - {0x78}) \<union> set ([0x63, 0x68])"
    unfolding s2_def by (rule subst1_set)
  then have 2: "ch_lezh \<notin> set s2" and 3: "0x78 \<notin> set s2"
    using 1 by auto
  have s2: "postprocess s = s2"
    by (simp add: postprocess_eq s1_def s2_def)
  have "postprocess s2 = s2"
    by (simp add: postprocess_eq subst1_absent[OF 2] subst1_absent[OF 3])
  then show ?thesis by (simp add: s2)
qed

lemma first_some_SomeD: "first_some f ks = Some y \<Longrightarrow> \<exists>k \<in> set ks. f k = Some y"
  by (induction ks) (auto split: option.splits)

lemma rmatch_PlusD:
  assumes "rmatch (Plus c # p) prev s = Some (n, g)"
  shows "\<exists>k n'. 1 \<le> k \<and> k \<le> length (takeWhile c s) \<and>
           rmatch p (Some (s ! (k - 1))) (drop k s) = Some (n', g) \<and> n = k + n'"
proof -
  from assms have "first_some
       (\<lambda>k. case rmatch p (Some (s ! (k - 1))) (drop k s) of None \<Rightarrow> None | Some (n, g) \<Rightarrow> Some (k + n, g))
       (rev [1..<Suc (length (takeWhile c s))]) = Some (n, g)"
    by simp
  then obtain k where k: "k \<in> set (rev [1..<Suc (length (takeWhile c s))])"
    and m: "(case rmatch p (Some (s ! (k - 1))) (drop k s) of None \<Rightarrow> None | Some (n, g) \<Rightarrow> Some (k + n, g)) = Some (n, g)"
    using first_some_SomeD by fast
  from m obtain n' where "rmatch p (Some (s ! (k - 1))) (drop k s) = Some (n', g)" "n = k + n'"
    by (cases "rmatch p (Some (s ! (k - 1))) (drop k s)") auto
  moreover from k have "1 \<le> k" "k \<le> length (takeWhile c s)" by auto
  ultimately show ?thesis by blast
qed

lemma rmatch_groups:
  "rmatch p prev s = Some (n, g) \<Longrightarrow> list_all2 (\<lambda>cl x. cl x) (grp_classes p) g"
proof (induction p prev s arbitrary: n g rule: rmatch.induct)
  case (1 prev s)
  then show ?case by simp
next
  case (2 w p prev s)
  then show ?case by (simp split: if_splits)
next
  case (3 c p prev s)
  then show ?case by (auto split: list.splits if_splits option.splits)
next
  case (4 c p prev s)
  then show ?case by (auto split: list.splits if_splits option.splits)
next
  case (5 c p prev s)
  then show ?case by (auto split: list.splits if_splits option.splits)
next
  case (6 c p prev s)
  from rmatch_PlusD[OF "6.prems"] obtain k n' where k: "1 \<le> k" "k \<le> length (takeWhile c s)"
    and m: "rmatch p (Some (s ! (k - 1))) (drop k s) = Some (n', g)" and n: "n = k + n'"
    by blast
  have "k \<in> set (rev [1..<Suc (length (takeWhile c s))])" using k by auto
  then have "list_all2 (\<lambda>cl x. cl x) (grp_classes p) g"
    using "6.IH" m by blast
  then show ?case by simp
qed

lemma rmatch_consumes:
  "consumes p \<Longrightarrow> rmatch p prev s = Some (n, g) \<Longrightarrow> 0 < n"
proof (induction p prev s arbitrary: n g rule: rmatch.induct)
  case (1 prev s)
  then show ?case by simp
next
  case (2 w p prev s)
  then show ?case by (simp split: if_splits)
next
  case (3 c p prev s)
  then show ?case by (auto split: list.splits if_splits option.splits)
next
  case (4 c p prev s)
  then show ?case by (auto split: list.splits if_splits option.splits)
next
  case (5 c p prev s)
  then show ?case by (auto split: list.splits if_splits option.splits)
next
  case (6 c p prev s)
  from rmatch_PlusD[OF "6.prems"(2)] obtain k n' where k: "1 \<le> k" and n: "n = k + n'"
    by blast
  then show ?case by simp
qed

lemma rmatch_length:
  "rmatch p prev s = Some (n, g) \<Longrightarrow> n \<le> length s"
proof (induction p prev s arbitrary: n g rule: rmatch.induct)
  case (1 prev s)
  then show ?case by simp
next
  case (2 w p prev s)
  then show ?case by (simp split: if_splits)
next
  case (3 c p prev s)
  then show ?case by (auto split: list.splits if_splits option.splits)
next
  case (4 c p prev s)
  then show ?case by (auto split: list.splits if_splits option.splits)
next
  case (5 c p prev s)
  then show ?case by (auto split: list.splits if_splits option.splits)
next
  case (6 c p prev s)
  from rmatch_PlusD[OF "6.prems"] obtain k n' where k: "1 \<le> k" "k \<le> length (takeWhile c s)"
    and m: "rmatch p (Some (s ! (k - 1))) (drop k s) = Some (n', g)" and n: "n = k + n'"
    by blast
  have "k \<in> set (rev [1..<Suc (length (takeWhile c s))])" using k by auto
  then have "n' \<le> length (drop k s)" using "6.IH" m by blast
  moreover have "k \<le> length s"
    using k(2) length_takeWhile_le[of c s] by simp
  ultimately show ?case using n by simp
qed

lemma re_sub_at_match:
  "rmatch p prev (x # xs) = Some (Suc n, g) \<Longrightarrow>
   re_sub_at p t prev (x # xs) = expand t g @ re_sub_at p t (Some ((x # xs) ! n)) (drop n xs)"
  by simp

lemma re_sub_at_nomatch:
  "(\<And>n g. rmatch p prev (x # xs) \<noteq> Some (Suc n, g)) \<Longrightarrow>
   re_sub_at p t prev (x # xs) = x # re_sub_at p t (Some x) xs"
  by (auto split: option.splits nat.splits)

lemma expand_end:
  assumes "end_safe (p, t)" and "list_all2 (\<lambda>cl x. cl x) (grp_classes p) g"
  shows "expand t g \<noteq> [] \<and> last (expand t g) \<noteq> sp"
proof -
  from assms(1) obtain t' x where t: "t = t' @ [x]" and x: "tok_safe p x"
    by (cases t rule: rev_cases) (auto simp add: end_safe_def)
  show ?thesis
  proof (cases x)
    case (TChr c)
    with x show ?thesis by (simp add: t expand_def)
  next
    case (TRef k)
    with x have k: "1 \<le> k" "k \<le> length (grp_classes p)" and cl: "list_all (\<lambda>cl. \<not> cl sp) (grp_classes p)"
      by simp_all
    have i: "k - 1 < length (grp_classes p)" using k by simp
    have "(grp_classes p ! (k - 1)) (g ! (k - 1))"
      using assms(2) i by (simp add: list_all2_conv_all_nth)
    moreover have "\<not> (grp_classes p ! (k - 1)) sp"
      using cl i by (simp add: list_all_length)
    ultimately have "g ! (k - 1) \<noteq> sp" by auto
    then show ?thesis by (simp add: t expand_def TRef)
  qed
qed

lemma re_sub_at_end:
  "end_safe (p, t) \<Longrightarrow> s \<noteq> [] \<Longrightarrow> last s \<noteq> sp \<Longrightarrow>
   re_sub_at p t prev s \<noteq> [] \<and> last (re_sub_at p t prev s) \<noteq> sp"
proof (induction s arbitrary: prev rule: length_induct)
  case (1 s)
  from "1.prems"(2) obtain x xs where s: "s = x # xs" by (cases s) auto
  show ?case
  proof (cases "\<exists>n g. rmatch p prev (x # xs) = Some (Suc n, g)")
    case True
    then obtain n g where m: "rmatch p prev (x # xs) = Some (Suc n, g)" by blast
    have e: "expand t g \<noteq> [] \<and> last (expand t g) \<noteq> sp"
      using "1.prems"(1) rmatch_groups[OF m] by (rule expand_end)
    have out: "re_sub_at p t prev s = expand t g @ re_sub_at p t (Some ((x # xs) ! n)) (drop n xs)"
      unfolding s using m by (rule re_sub_at_match)
    show ?thesis
    proof (cases "drop n xs = []")
      case True
      with e show ?thesis by (simp add: out)
    next
      case False
      then have "n < length xs" by simp
      then have "last (drop n xs) = last s" by (auto simp add: s last_drop)
      moreover have "length (drop n xs) < length s" by (simp add: s)
      ultimately have "re_sub_at p t (Some ((x # xs) ! n)) (drop n xs) \<noteq> [] \<and>
          last (re_sub_at p t (Some ((x # xs) ! n)) (drop n xs)) \<noteq> sp"
        using "1.IH" "1.prems"(1,3) False by metis
      then show ?thesis by (simp add: out)
    qed
  next
    case False
    then have out: "re_sub_at p t prev s = x # re_sub_at p t (Some x) xs"
      unfolding s by (intro re_sub_at_nomatch) blast
    show ?thesis
    proof (cases "xs = []")
      case True
      with "1.prems"(3) have "x \<noteq> sp" by (simp add: s)
      with True show ?thesis by (simp only: out) simp
    next
      case False
      then have "last xs = last s" by (simp add: s)
      moreover have "length xs < length s" by (simp add: s)
      ultimately have "re_sub_at p t (Some x) xs \<noteq> [] \<and> last (re_sub_at p t (Some x) xs) \<noteq> sp"
        using "1.IH" "1.prems"(1,3) False by metis
      then show ?thesis by (simp add: out)
    qed
  qed
qed

lemma re_sub_ends_ok: "end_safe (p, t) \<Longrightarrow> ends_ok s \<Longrightarrow> ends_ok (re_sub p t s)"
  using re_sub_at_end[of p t s None] by (cases "s = []") (auto simp add: ends_ok_def re_sub_def)

lemma apply_rules_ends_ok: "list_all end_safe rs \<Longrightarrow> ends_ok s \<Longrightarrow> ends_ok (apply_rules rs s)"
proof (induction rs arbitrary: s)
  case Nil
  then show ?case by (simp add: apply_rules_empty)
next
  case (Cons r rs)
  obtain p t where r: "r = (p, t)" by (cases r)
  have "ends_ok (re_sub p t s)"
    using Cons.prems by (simp add: r re_sub_ends_ok)
  moreover have "list_all end_safe rs" using Cons.prems(1) by simp
  ultimately show ?case
    by (simp add: r apply_rules_Cons Cons.IH)
qed

lemma lit_simps: "lit [] = []" "lit (a # s) = One (chr a) # lit s"
  by (simp_all add: lit_def)

lemma repl_simps: "repl [] = []" "repl (a # s) = TChr a # repl s"
  by (simp_all add: repl_def)

lemma end_safe_simps:
  "end_safe (p, [x]) = tok_safe p x"
  "end_safe (p, x # y # t) = end_safe (p, y # t)"
  by (simp_all add: end_safe_def)

lemmas table_simps = lit_simps repl_simps u_simps

lemma foreign_end_safe: "list_all end_safe foreign_rules"
  by (simp add: foreign_rules_def end_safe_simps table_simps)

lemma collapse_expand_end_safe: "list_all end_safe collapse_expand_rules"
  by (simp add: collapse_expand_rules_def end_safe_simps table_simps)

lemma e_caron_end_safe: "list_all end_safe e_caron_rules"
  by (simp add: e_caron_rules_def end_safe_simps table_simps any_of_def)

lemma i_i_acute_end_safe: "list_all end_safe i_i_acute_rules"
  by (simp add: i_i_acute_rules_def end_safe_simps table_simps)

lemma init_scp_end_safe: "isspace db sp \<Longrightarrow> list_all end_safe (init_scp_rules db)"
  by (simp add: init_scp_rules_def end_safe_simps table_simps any_of_def non_space_def)

lemma strip_ends: "strip db s = [] \<or> \<not> isspace db (last (strip db s))"
proof -
  define ys where "ys = dropWhile (isspace db) (rev (dropWhile (isspace db) s))"
  have "ys = [] \<or> \<not> isspace db (hd ys)"
    unfolding ys_def using hd_dropWhile by blast
  then show ?thesis
    by (auto simp add: strip_def ys_def[symmetric] last_rev)
qed

lemma normalize_strip: "\<exists>t. normalize db s = strip db t"
  unfolding normalize_def Let_def by (rule exI) (rule refl)

lemma normalize_ends_ok:
  assumes "isspace db sp"
  shows "ends_ok (normalize db s)"
proof -
  obtain t where t: "normalize db s = strip db t"
    using normalize_strip by blast
  show ?thesis
    using strip_ends[of db t] assms by (auto simp add: t ends_ok_def)
qed

lemma pre_assim_ends_ok:
  assumes "isspace db sp"
  shows "ends_ok (i_i_acute (e_caron (collapse_expand (foreign (init_scp db (normalize db s))))))"
  unfolding i_i_acute_def e_caron_def collapse_expand_def foreign_def init_scp_def
  by (intro apply_rules_ends_ok i_i_acute_end_safe e_caron_end_safe collapse_expand_end_safe
      foreign_end_safe init_scp_end_safe normalize_ends_ok assms)

lemma transcribe_returns:
  assumes "isspace db sp"
  shows "\<exists>f. transcribe db s = Inr f"
proof -
  define pre where "pre = i_i_acute (e_caron (collapse_expand (foreign (init_scp db (normalize db s)))))"
  have "ends_ok pre" unfolding pre_def using assms by (rule pre_assim_ends_ok)
  then obtain out where "voicing_assim pre = Inr out"
    using voicing_assim_returns_iff[of pre] by (auto simp add: ends_ok_def)
  then show ?thesis
    by (simp add: transcribe_def Let_def pre_def[symmetric])
qed

lemma well_formed_simps:
  "well_formed (One c # p, t) = list_all (ref_ok (One c # p)) t"
  "well_formed (Grp c # p, t) = list_all (ref_ok (Grp c # p)) t"
  "well_formed (Plus c # p, t) = list_all (ref_ok (Plus c # p)) t"
  "well_formed (Bnd w # One c # p, t) = list_all (ref_ok (Bnd w # One c # p)) t"
  by (simp_all add: well_formed_def refs_ok_def)

lemma rules_well_formed:
  "list_all well_formed
     ([([Grp (word db), Grp (non_word db)], [TRef 1, TChr sp, TRef 2]),
       ([Grp (non_word db), Grp (word db)], [TRef 1, TChr sp, TRef 2]),
       ([Plus (space db)], [TChr sp])]
      @ init_scp_rules db @ foreign_rules @ collapse_expand_rules @ e_caron_rules @ i_i_acute_rules
      @ unify_rules @ hiatus_rules @ heuristic_rules @ postprocess_rules)"
  by (simp add: init_scp_rules_def foreign_rules_def collapse_expand_rules_def e_caron_rules_def
      i_i_acute_rules_def unify_rules_def hiatus_rules_def heuristic_rules_def postprocess_rules_def
      well_formed_simps table_simps)

lemma well_formed_match:
  assumes "well_formed (p, t)" and "rmatch p prev s = Some (n, g)"
  shows "0 < n \<and> length g = length (grp_classes p)"
  using assms rmatch_consumes[of p prev s n g] rmatch_groups[OF assms(2)]
  by (simp add: well_formed_def list_all2_lengthD)

section \<open>Totality of the stages and the constructor\<close>

lemma normalize_Nil: "normalize db [] = []"
  by (simp add: normalize_def casefold_def re_sub_Nil strip_def)

lemma voicing_assim_a_sp: "voicing_assim (u ''a '') = Inl IndexError"
  by code_simp

text \<open>
  C5 as stated fails: \<open>_voicing_assim\<close> raises \<open>IndexError\<close> on a string that ends in a
  space, when \<open>result[1]\<close> is read from the one-character result \<open>" "\<close>.
\<close>

theorem stages_total_counterexample:
  "voicing_assim [0x61, sp] = Inl IndexError"
  using voicing_assim_a_sp by (simp add: u_simps)

lemma re_sub_err_ok: "refs_ok (p, t) \<Longrightarrow> re_sub_err p t s = Inr (re_sub p t s)"
  by (simp add: re_sub_err_def)

lemma apply_rules_err_ok: "list_all refs_ok rs \<Longrightarrow> apply_rules_err rs s = Inr (apply_rules rs s)"
proof (induction rs arbitrary: s)
  case Nil
  show ?case by (simp add: apply_rules_empty)
next
  case (Cons r rs)
  obtain p t where r: "r = (p, t)" by (cases r)
  have "re_sub_err p t s = Inr (re_sub p t s)"
    using Cons.prems by (simp add: r re_sub_err_ok)
  moreover have "apply_rules_err rs (re_sub p t s) = Inr (apply_rules rs (re_sub p t s))"
    using Cons.prems by (intro Cons.IH) simp
  ultimately show ?case by (simp add: r apply_rules_Cons)
qed

lemma well_formed_refs_ok: "list_all well_formed rs \<Longrightarrow> list_all refs_ok rs"
  by (simp add: list_all_iff well_formed_def)

lemma tables_refs_ok:
  "list_all refs_ok (init_scp_rules db)" "list_all refs_ok foreign_rules"
  "list_all refs_ok collapse_expand_rules" "list_all refs_ok e_caron_rules"
  "list_all refs_ok i_i_acute_rules" "list_all refs_ok unify_rules" "list_all refs_ok hiatus_rules"
  "list_all refs_ok heuristic_rules" "list_all refs_ok postprocess_rules"
  using well_formed_refs_ok[OF rules_well_formed[of db]] by (simp_all only: list_all_append)

lemma normalize_err_ok: "normalize_err db s = Inr (normalize db s)"
proof -
  have 1: "refs_ok ([Grp A, Grp B], [TRef 1, TChr sp, TRef 2])" for A B
    by (simp add: refs_ok_def)
  have 2: "refs_ok ([Plus S], [TChr sp])" for S
    by (simp add: refs_ok_def)
  show ?thesis
    unfolding normalize_err_def normalize_def Let_def re_sub_err_ok[OF 1] re_sub_err_ok[OF 2] sum.case
    by (rule refl)
qed

lemma transcribe_sample: "transcribe sample_db (u ''b '') = Inr (u ''p'')"
  by code_simp

text \<open>
  C5, amended. Every stage maps the empty string to the empty string. Every stage built
  on \<open>re.sub\<close> returns a string for every string: none of its calls refuses its
  template. \<open>_voicing_assim\<close> returns a string for every input that is empty or does
  not end in a space, and raises \<open>IndexError\<close> on every non-empty input that ends in a
  space. Inside the pipeline the string that reaches \<open>_voicing_assim\<close> never ends in a
  space (U+0020 being whitespace, which \<open>strip\<close> removes), so the pipeline returns for
  every string.
\<close>

theorem stages_total:
  "normalize db [] = [] \<and> init_scp db [] = [] \<and> foreign [] = [] \<and> collapse_expand [] = [] \<and>
   e_caron [] = [] \<and> i_i_acute [] = [] \<and> voicing_assim [] = Inr [] \<and> unify [] = [] \<and>
   hiatus [] = [] \<and> heuristic [] = [] \<and> postprocess [] = [] \<and>
   normalize_err db s = Inr (normalize db s) \<and>
   apply_rules_err (init_scp_rules db) s = Inr (init_scp db s) \<and>
   apply_rules_err foreign_rules s = Inr (foreign s) \<and>
   apply_rules_err collapse_expand_rules s = Inr (collapse_expand s) \<and>
   apply_rules_err e_caron_rules s = Inr (e_caron s) \<and>
   apply_rules_err i_i_acute_rules s = Inr (i_i_acute s) \<and>
   apply_rules_err unify_rules s = Inr (unify s) \<and>
   apply_rules_err hiatus_rules s = Inr (hiatus s) \<and>
   apply_rules_err heuristic_rules s = Inr (heuristic s) \<and>
   apply_rules_err postprocess_rules s = Inr (postprocess s) \<and>
   (s = [] \<or> last s \<noteq> sp \<longrightarrow> (\<exists>out. voicing_assim s = Inr out)) \<and>
   (s \<noteq> [] \<and> last s = sp \<longrightarrow> voicing_assim s = Inl IndexError) \<and>
   (isspace db sp \<longrightarrow>
      ends_ok (i_i_acute (e_caron (collapse_expand (foreign (init_scp db (normalize db s)))))) \<and>
      (\<exists>out. voicing_assim (i_i_acute (e_caron (collapse_expand (foreign (init_scp db (normalize db s)))))) = Inr out) \<and>
      (\<exists>f. transcribe db s = Inr f))"
proof -
  have empty: "normalize db [] = [] \<and> init_scp db [] = [] \<and> foreign [] = [] \<and> collapse_expand [] = [] \<and>
     e_caron [] = [] \<and> i_i_acute [] = [] \<and> voicing_assim [] = Inr [] \<and> unify [] = [] \<and>
     hiatus [] = [] \<and> heuristic [] = [] \<and> postprocess [] = []"
    by (simp add: normalize_Nil init_scp_def foreign_def collapse_expand_def e_caron_def
        i_i_acute_def unify_def hiatus_def heuristic_def postprocess_def apply_rules_Nil
        voicing_assim_Nil)
  have returns: "normalize_err db s = Inr (normalize db s) \<and>
     apply_rules_err (init_scp_rules db) s = Inr (init_scp db s) \<and>
     apply_rules_err foreign_rules s = Inr (foreign s) \<and>
     apply_rules_err collapse_expand_rules s = Inr (collapse_expand s) \<and>
     apply_rules_err e_caron_rules s = Inr (e_caron s) \<and>
     apply_rules_err i_i_acute_rules s = Inr (i_i_acute s) \<and>
     apply_rules_err unify_rules s = Inr (unify s) \<and>
     apply_rules_err hiatus_rules s = Inr (hiatus s) \<and>
     apply_rules_err heuristic_rules s = Inr (heuristic s) \<and>
     apply_rules_err postprocess_rules s = Inr (postprocess s)"
    by (simp add: normalize_err_ok apply_rules_err_ok tables_refs_ok init_scp_def foreign_def
        collapse_expand_def e_caron_def i_i_acute_def unify_def hiatus_def heuristic_def
        postprocess_def)
  have assim1: "s = [] \<or> last s \<noteq> sp \<longrightarrow> (\<exists>out. voicing_assim s = Inr out)"
    using voicing_assim_returns_iff[of s] by blast
  have assim2: "s \<noteq> [] \<and> last s = sp \<longrightarrow> voicing_assim s = Inl IndexError"
    using voicing_assim_raises[of s] by blast
  have pipeline: "ends_ok (i_i_acute (e_caron (collapse_expand (foreign (init_scp db (normalize db s)))))) \<and>
      (\<exists>out. voicing_assim (i_i_acute (e_caron (collapse_expand (foreign (init_scp db (normalize db s)))))) = Inr out) \<and>
      (\<exists>f. transcribe db s = Inr f)" if sp: "isspace db sp"
  proof -
    let ?pre = "i_i_acute (e_caron (collapse_expand (foreign (init_scp db (normalize db s)))))"
    have e: "ends_ok ?pre" using sp by (rule pre_assim_ends_ok)
    then have "\<exists>out. voicing_assim ?pre = Inr out"
      using voicing_assim_returns_iff[of ?pre] by (simp add: ends_ok_def)
    then show ?thesis
      using e transcribe_returns[OF sp, of s] by blast
  qed
  show ?thesis
    using empty returns assim1 assim2 pipeline by blast
qed

theorem stages_total_witness:
  "last (u ''ab'') = 0x62 \<and> (\<exists>out. voicing_assim (u ''ab'') = Inr out) \<and>
   last (u ''b '') = sp \<and> voicing_assim (u ''b '') = Inl IndexError \<and>
   isspace sample_db sp \<and> transcribe sample_db (u ''b '') = Inr (u ''p'') \<and>
   apply_rules_err (init_scp_rules sample_db) (u ''b '') = Inr (init_scp sample_db (u ''b ''))"
proof -
  have 1: "last (u ''ab'') = 0x62" by (simp add: u_simps)
  then have 2: "u ''ab'' = [] \<or> last (u ''ab'') \<noteq> sp" by simp
  have 3: "last (u ''b '') = sp" and 4: "u ''b '' \<noteq> []" by (simp_all add: u_simps)
  have 5: "isspace sample_db sp" by (simp add: sample_db_def)
  show ?thesis
    using stages_total[of sample_db "u ''ab''"] stages_total[of sample_db "u ''b ''"] 1 2 3 4 5
      transcribe_sample
    by blast
qed

text \<open>
  C10. Construction succeeds for every string and keeps the original: the object is the
  string itself, \<open>ort\<close> is the string, and \<open>fon\<close> is the transcription computed at
  construction. (The space U+0020 is whitespace in Python's tables; \<open>strip\<close> therefore
  leaves nothing for \<open>_voicing_assim\<close> to raise on.)
\<close>

theorem construction_preserves_original:
  assumes "isspace db sp"
  shows "\<exists>t. Transcription db s = Inr t \<and> ort t = s \<and> str_value t = s \<and>
             transcribe db s = Inr (fon t)"
proof -
  obtain f where "transcribe db s = Inr f"
    using transcribe_returns[OF assms] by blast
  then show ?thesis
    by (simp add: Transcription_def)
qed

lemma sample_db_space: "isspace sample_db sp"
  by (simp add: sample_db_def)

theorem construction_preserves_original_witness:
  "isspace sample_db sp \<and>
   (\<exists>t. Transcription sample_db (u ''Ahoj '') = Inr t \<and> ort t = u ''Ahoj '' \<and>
        str_value t = u ''Ahoj '' \<and> transcribe sample_db (u ''Ahoj '') = Inr (fon t))"
  using construction_preserves_original[OF sample_db_space, of "u ''Ahoj ''"] sample_db_space
  by blast

section \<open>The normalizer\<close>

lemma rmatch_pair:
  "rmatch [Grp A, Grp B] prev s =
     (case s of a # b # r \<Rightarrow> if A a \<and> B b then Some (Suc (Suc 0), [a, b]) else None | _ \<Rightarrow> None)"
  by (simp split: list.splits)

lemma expand_pair: "expand [TRef 1, TChr sp, TRef 2] [a, b] = [a, sp, b]"
  by (simp add: expand_def)

lemma re_sub_at_pair:
  "re_sub_at [Grp A, Grp B] [TRef 1, TChr sp, TRef 2] prev s = sep A B s"
proof (induction A B s arbitrary: prev rule: sep.induct)
  case (1 A B a b r)
  let ?p = "[Grp A, Grp B]" and ?t = "[TRef 1, TChr sp, TRef 2]"
  show ?case
  proof (cases "A a \<and> B b")
    case True
    then have "rmatch ?p prev (a # b # r) = Some (Suc (Suc 0), [a, b])"
      by (simp add: rmatch_pair)
    then have m: "re_sub_at ?p ?t prev (a # b # r)
        = expand ?t [a, b] @ re_sub_at ?p ?t (Some ((a # b # r) ! Suc 0)) (drop (Suc 0) (b # r))"
      by (rule re_sub_at_match)
    have e: "expand ?t [a, b] = [a, sp, b]"
      by (simp add: expand_def)
    have s: "sep A B (a # b # r) = a # sp # b # sep A B r"
      using True by simp
    have ih: "re_sub_at ?p ?t (Some ((a # b # r) ! Suc 0)) (drop (Suc 0) (b # r)) = sep A B r"
      using "1.IH"(1)[OF True] by simp
    show ?thesis
      unfolding m e s ih by simp
  next
    case False
    then have "rmatch ?p prev (a # b # r) = None"
      by (simp add: rmatch_pair)
    then have m: "re_sub_at ?p ?t prev (a # b # r) = a # re_sub_at ?p ?t (Some a) (b # r)"
      by (intro re_sub_at_nomatch) simp
    have s: "sep A B (a # b # r) = a # sep A B (b # r)"
      using False by auto
    show ?thesis
      unfolding m s "1.IH"(2)[OF False] by (rule refl)
  qed
qed simp_all

lemma rmatch_plus:
  "rmatch [Plus S] prev s =
     (if takeWhile S s = [] then None else Some (length (takeWhile S s), []))"
proof (cases "takeWhile S s")
  case Nil
  then show ?thesis by simp
next
  case (Cons a list)
  then have "rev [1..<Suc (length (takeWhile S s))] = length (takeWhile S s) # rev [1..<length (takeWhile S s)]"
    by simp
  then show ?thesis
    using Cons by simp
qed

lemma re_sub_at_plus: "re_sub_at [Plus S] [TChr sp] prev s = squeeze S s"
proof (induction S s arbitrary: prev rule: squeeze.induct)
  case (1 S)
  show ?case by simp
next
  case (2 S a r)
  let ?p = "[Plus S]" and ?t = "[TChr sp]"
  show ?case
  proof (cases "S a")
    case True
    then have "rmatch ?p prev (a # r) = Some (Suc (length (takeWhile S r)), [])"
      by (simp add: rmatch_plus del: rmatch.simps)
    then have m: "re_sub_at ?p ?t prev (a # r)
        = expand ?t [] @ re_sub_at ?p ?t (Some ((a # r) ! length (takeWhile S r))) (drop (length (takeWhile S r)) r)"
      by (rule re_sub_at_match)
    have d: "drop (length (takeWhile S r)) r = dropWhile S r"
      by (simp add: dropWhile_eq_drop)
    have e: "expand ?t [] = [sp]"
      by (simp add: expand_def)
    have s: "squeeze S (a # r) = sp # squeeze S (dropWhile S r)"
      using True by simp
    show ?thesis
      unfolding m d e s "2.IH"(1)[OF True] by simp
  next
    case False
    then have "rmatch ?p prev (a # r) = None"
      by (simp add: rmatch_plus del: rmatch.simps)
    then have m: "re_sub_at ?p ?t prev (a # r) = a # re_sub_at ?p ?t (Some a) r"
      by (intro re_sub_at_nomatch) simp
    have s: "squeeze S (a # r) = a # squeeze S r"
      using False by simp
    show ?thesis
      unfolding m s "2.IH"(2)[OF False] by (rule refl)
  qed
qed

lemma normalize_eq:
  "normalize db s =
     strip db (squeeze (space db) (sep (non_word db) (word db) (sep (word db) (non_word db) (casefold db s))))"
  unfolding normalize_def Let_def re_sub_def re_sub_at_pair re_sub_at_plus by (rule refl)

lemma sep_not: "\<not> A a \<Longrightarrow> sep A B (a # r) = a # sep A B r"
  by (cases r) simp_all

lemma sep_not2: "\<not> B b \<Longrightarrow> sep A B (a # b # r) = a # sep A B (b # r)"
  by simp

lemma sep_hd: "sep A B (b # r) = b # tl (sep A B (b # r))"
  by (cases r) simp_all

lemma ins_hd: "ins W (b # r) = b # tl (ins W (b # r))"
  by simp

lemma sep_sep_ins:
  assumes "\<not> W sp"
  shows "sep (\<lambda>c. \<not> W c) W (sep W (\<lambda>c. \<not> W c) s) = ins W s"
proof (induction s)
  case Nil
  show ?case by simp
next
  case (Cons a s)
  let ?N = "\<lambda>c. \<not> W c"
  show ?case
  proof (cases s)
    case Nil
    then show ?thesis by simp
  next
    case (Cons b r)
    have ih: "sep ?N W (sep W ?N (b # r)) = ins W (b # r)"
      using Cons.IH by (simp add: Cons)
    show ?thesis
    proof (cases "W a \<and> \<not> W b")
      case True
      have inner: "sep W ?N (b # r) = b # sep W ?N r"
        using True by (simp add: sep_not)
      have "sep ?N W (sep W ?N (a # b # r)) = sep ?N W (a # sp # b # sep W ?N r)"
        using True by simp
      also have "\<dots> = a # sep ?N W (sp # b # sep W ?N r)"
        using True by (simp add: sep_not)
      also have "\<dots> = a # sp # sep ?N W (b # sep W ?N r)"
        using True by (simp add: sep_not2)
      also have "\<dots> = a # sp # ins W (b # r)"
        using ih by (simp only: inner)
      also have "\<dots> = ins W (a # b # r)"
        using True by simp
      finally show ?thesis by (simp only: Cons)
    next
      case False
      obtain Y where Y: "sep W ?N (b # r) = b # Y"
        using sep_hd by blast
      have outer: "sep ?N W (b # Y) = ins W (b # r)"
        using ih by (simp only: Y)
      have 1: "sep ?N W (sep W ?N (a # b # r)) = sep ?N W (a # b # Y)"
        using False Y by auto
      show ?thesis
      proof (cases "\<not> W a \<and> W b")
        case True
        have "sep ?N W (a # b # Y) = a # sp # b # sep ?N W Y"
          using True by simp
        moreover have "sep ?N W (b # Y) = b # sep ?N W Y"
          using True by (simp add: sep_not)
        ultimately have "sep ?N W (a # b # Y) = a # sp # ins W (b # r)"
          using outer by simp
        also have "\<dots> = ins W (a # b # r)"
          using True by auto
        finally show ?thesis by (simp only: 1 Cons)
      next
        case False2: False
        have "W a = W b" using False False2 by blast
        then have "sep ?N W (a # b # Y) = a # sep ?N W (b # Y)"
          by auto
        also have "\<dots> = ins W (a # b # r)"
          using outer \<open>W a = W b\<close> by simp
        finally show ?thesis by (simp only: 1 Cons)
      qed
    qed
  qed
qed

lemma squeeze_sp_space: "S sp \<Longrightarrow> S b \<Longrightarrow> squeeze S (sp # b # Z) = squeeze S (b # Z)"
  by simp

lemma squeeze_ins_fixed:
  assumes WS: "\<And>c. S c \<Longrightarrow> \<not> W c" and sp: "S sp"
  shows "successively (tight W S) n \<Longrightarrow> (n \<noteq> [] \<Longrightarrow> \<not> S (last n)) \<Longrightarrow> squeeze S (ins W n) = n"
proof (induction n)
  case Nil
  show ?case by simp
next
  case (Cons a n)
  show ?case
  proof (cases n)
    case Nil
    with Cons.prems(2) show ?thesis by simp
  next
    case (Cons b r)
    have t: "tight W S a b" and suc: "successively (tight W S) (b # r)"
      using Cons.prems(1) by (simp_all add: Cons)
    have "last (b # r) = last (a # n)" by (simp add: Cons)
    then have ih: "squeeze S (ins W (b # r)) = b # r"
      using Cons.IH suc Cons.prems(2) by (simp add: Cons)
    obtain Z where Z: "ins W (b # r) = b # Z" by simp
    have ihZ: "squeeze S (b # Z) = b # r" using ih by (simp only: Z)
    have ins: "ins W (a # b # r) = a # (if W a \<noteq> W b then [sp] else []) @ b # Z"
      using Z by simp
    show ?thesis
    proof (cases "S a")
      case True
      then have a: "a = sp" and b: "\<not> S b" using t by (simp_all add: tight_def)
      have "dropWhile S ((if W a \<noteq> W b then [sp] else []) @ b # Z) = b # Z"
        using b sp by simp
      then have "squeeze S (ins W (a # b # r)) = sp # squeeze S (b # Z)"
        using True by (simp only: ins squeeze.simps if_True)
      then show ?thesis by (simp only: ihZ a Cons)
    next
      case False
      have "squeeze S ((if W a \<noteq> W b then [sp] else []) @ b # Z) = squeeze S (b # Z)"
      proof (cases "S b")
        case True
        then show ?thesis using sp by simp
      next
        case False2: False
        then have "W a = W b" using t False by (auto simp add: tight_def)
        then show ?thesis by simp
      qed
      then have "squeeze S (ins W (a # b # r)) = a # squeeze S (b # Z)"
        using False by (simp only: ins squeeze.simps if_False)
      then show ?thesis by (simp only: ihZ Cons)
    qed
  qed
qed

lemma ins_loose: "successively (loose W) (ins W s)"
proof (induction s)
  case Nil
  show ?case by simp
next
  case (Cons a s)
  show ?case
  proof (cases s)
    case Nil
    then show ?thesis by simp
  next
    case (Cons b r)
    obtain Z where Z: "ins W (b # r) = b # Z" by simp
    have "successively (loose W) (b # Z)"
      using Cons.IH by (simp only: Cons Z)
    then have "successively (loose W) (a # (if W a \<noteq> W b then [sp] else []) @ b # Z)"
      by (simp add: loose_def)
    moreover have "ins W (a # b # r) = a # (if W a \<noteq> W b then [sp] else []) @ b # Z"
      using Z by simp
    ultimately show ?thesis by (simp only: Cons)
  qed
qed

lemma squeeze_hd: "squeeze S (a # r) = (if S a then sp else a) # tl (squeeze S (a # r))"
  by simp

lemma successively_tl: "successively P (a # r) \<Longrightarrow> successively P r"
  by (cases r) simp_all

lemma successively_dropWhile: "successively P r \<Longrightarrow> successively P (dropWhile S r)"
  using successively_append_iff[of P "takeWhile S r" "dropWhile S r"] by simp

lemma squeeze_tight:
  "S sp \<Longrightarrow> successively (loose W) t \<Longrightarrow> successively (tight W S) (squeeze S t)"
proof (induction S t rule: squeeze.induct)
  case (1 S)
  show ?case by simp
next
  case (2 S a r)
  show ?case
  proof (cases "S a")
    case True
    have "successively (loose W) (dropWhile S r)"
      using "2.prems"(2) by (intro successively_dropWhile) (rule successively_tl)
    then have ih: "successively (tight W S) (squeeze S (dropWhile S r))"
      using "2.IH"(1) True "2.prems"(1) by blast
    have "successively (tight W S) (sp # squeeze S (dropWhile S r))"
    proof (cases "dropWhile S r")
      case Nil
      show ?thesis unfolding Nil by simp
    next
      case (Cons b r')
      then have b: "\<not> S b" using hd_dropWhile[of S r] by auto
      then have "squeeze S (dropWhile S r) = b # squeeze S r'"
        unfolding Cons by simp
      moreover have "tight W S sp b"
        using b "2.prems"(1) by (simp add: tight_def)
      ultimately show ?thesis using ih by simp
    qed
    then show ?thesis using True by simp
  next
    case False
    have "successively (loose W) r"
      using "2.prems"(2) by (rule successively_tl)
    then have ih: "successively (tight W S) (squeeze S r)"
      using "2.IH"(2) False "2.prems"(1) by blast
    have "successively (tight W S) (a # squeeze S r)"
    proof (cases r)
      case Nil
      then show ?thesis by simp
    next
      case (Cons b r')
      have l: "loose W a b" using "2.prems"(2) by (simp add: Cons)
      have "tight W S a (if S b then sp else b)"
        using l False "2.prems"(1) by (auto simp add: tight_def loose_def)
      moreover have "squeeze S r = (if S b then sp else b) # tl (squeeze S r)"
        unfolding Cons by (rule squeeze_hd)
      ultimately show ?thesis using ih
        by (metis successively.simps(3))
    qed
    then show ?thesis using False by simp
  qed
qed

lemma rev_dropWhile_takeWhile: "xs = rev (dropWhile P (rev xs)) @ rev (takeWhile P (rev xs))"
  by (metis rev_append rev_rev_ident takeWhile_dropWhile_id)

lemma strip_prefix: "\<exists>X. dropWhile (isspace db) t = strip db t @ X"
  unfolding strip_def using rev_dropWhile_takeWhile by blast

lemma strip_successively: "successively P t \<Longrightarrow> successively P (strip db t)"
proof -
  assume "successively P t"
  then have "successively P (dropWhile (isspace db) t)" by (rule successively_dropWhile)
  moreover obtain X where "dropWhile (isspace db) t = strip db t @ X"
    using strip_prefix by blast
  ultimately show ?thesis by (simp add: successively_append_iff)
qed

lemma strip_hd: "strip db t \<noteq> [] \<Longrightarrow> \<not> isspace db (hd (strip db t))"
proof -
  assume ne: "strip db t \<noteq> []"
  obtain X where X: "dropWhile (isspace db) t = strip db t @ X"
    using strip_prefix by blast
  with ne have "dropWhile (isspace db) t \<noteq> []" "hd (dropWhile (isspace db) t) = hd (strip db t)"
    by simp_all
  then show ?thesis using hd_dropWhile[of "isspace db" t] by simp
qed

lemma strip_fixed:
  assumes "n \<noteq> [] \<Longrightarrow> \<not> isspace db (hd n) \<and> \<not> isspace db (last n)"
  shows "strip db n = n"
proof (cases n)
  case Nil
  then show ?thesis by (simp add: strip_def)
next
  case (Cons a r)
  with assms have a: "\<not> isspace db a" and l: "\<not> isspace db (last n)" by auto
  have 1: "dropWhile (isspace db) n = n" using a by (simp add: Cons)
  obtain y ys where r: "rev n = y # ys" using Cons by (cases "rev n") auto
  have "y = last n" using r hd_rev[of n] by simp
  then have 2: "dropWhile (isspace db) (rev n) = rev n"
    unfolding r using l by simp
  show ?thesis by (simp add: strip_def 1 2)
qed

lemma set_strip: "set (strip db t) \<subseteq> set t"
proof -
  have "set (strip db t) \<subseteq> set (dropWhile (isspace db) t)"
    using strip_prefix[of db t] by auto
  then show ?thesis using set_dropWhileD by fastforce
qed

lemma set_ins: "set (ins W s) \<subseteq> insert sp (set s)"
proof (induction s)
  case Nil
  show ?case by simp
next
  case (Cons a s)
  have "set (gap W a s) \<subseteq> {sp}" by (cases s) auto
  then show ?case using Cons by auto
qed

lemma set_squeeze: "set (squeeze S t) \<subseteq> insert sp (set t)"
proof (induction S t rule: squeeze.induct)
  case (1 S)
  show ?case by simp
next
  case (2 S a r)
  show ?case
  proof (cases "S a")
    case True
    then have "set (squeeze S (dropWhile S r)) \<subseteq> insert sp (set (dropWhile S r))"
      using "2.IH"(1) by blast
    moreover have "set (dropWhile S r) \<subseteq> set r"
      using set_dropWhileD by fastforce
    ultimately show ?thesis using True by auto
  next
    case False
    then show ?thesis using "2.IH"(2) by auto
  qed
qed

lemma casefold_fixed: "(\<And>c. c \<in> set n \<Longrightarrow> casefold1 db c = [c]) \<Longrightarrow> casefold db n = n"
  by (induction n) (simp_all add: casefold_def)

lemma set_casefold: "c \<in> set (casefold db s) \<Longrightarrow> \<exists>d. c \<in> set (casefold1 db d)"
  by (auto simp add: casefold_def)

lemma normalize_ins:
  assumes "\<not> word db sp"
  shows "normalize db s = strip db (squeeze (space db) (ins (word db) (casefold db s)))"
  unfolding normalize_eq non_word_def sep_sep_ins[of "word db", OF assms] by (rule refl)

text \<open>
  C9. The normalizer is idempotent, for any Unicode tables in which whitespace is not a
  word character, the space U+0020 is whitespace, and case folding yields characters
  that fold to themselves and keeps the space, as Python's tables do.
\<close>

theorem normalize_idempotent:
  assumes ws: "\<forall>c. isspace db c \<longrightarrow> \<not> isalnum db c" and us: "\<not> isspace db 0x5F"
    and sp: "isspace db sp"
    and cf: "\<forall>d. \<forall>c \<in> set (casefold1 db d). casefold1 db c = [c]" and cfsp: "casefold1 db sp = [sp]"
  shows "normalize db (normalize db s) = normalize db s"
proof -
  let ?W = "word db" and ?S = "space db"
  have WS: "\<not> ?W c" if "?S c" for c
    using that ws us by (auto simp add: word_def space_def)
  have Ssp: "?S sp" using sp by (simp add: space_def)
  then have Wsp: "\<not> ?W sp" by (rule WS)
  define t where "t = squeeze ?S (ins ?W (casefold db s))"
  define n where "n = strip db t"
  have n: "normalize db s = n"
    by (simp add: normalize_ins[OF Wsp] n_def t_def)
  have "successively (tight ?W ?S) t"
    unfolding t_def using Ssp ins_loose by (rule squeeze_tight)
  then have tight: "successively (tight ?W ?S) n"
    unfolding n_def by (rule strip_successively)
  have ends: "\<not> ?S (hd n) \<and> \<not> ?S (last n)" if "n \<noteq> []"
    using that strip_hd[of db t] strip_ends[of db t] by (simp add: n_def space_def)
  have "set n \<subseteq> insert sp (set (casefold db s))"
    using set_strip[of db t] set_squeeze[of ?S "ins ?W (casefold db s)"] set_ins[of ?W "casefold db s"]
    by (auto simp add: n_def t_def)
  then have "casefold1 db c = [c]" if "c \<in> set n" for c
    using that cf cfsp set_casefold[of c db s] by blast
  then have "casefold db n = n" by (rule casefold_fixed)
  then have "normalize db n = strip db (squeeze ?S (ins ?W n))"
    by (simp add: normalize_ins[OF Wsp])
  also have "squeeze ?S (ins ?W n) = n"
    using WS Ssp tight ends by (intro squeeze_ins_fixed) auto
  also have "strip db n = n"
    using ends by (intro strip_fixed) (simp add: space_def)
  finally show ?thesis by (simp add: n)
qed

lemma sample_db_ws: "\<forall>c. isspace sample_db c \<longrightarrow> \<not> isalnum sample_db c"
  by (auto simp add: sample_db_def)

lemma sample_db_us: "\<not> isspace sample_db 0x5F"
  by (simp add: sample_db_def)

lemma sample_db_cf: "\<forall>d. \<forall>c \<in> set (casefold1 sample_db d). casefold1 sample_db c = [c]"
  by (auto simp add: sample_db_def split: if_splits)

lemma sample_db_cfsp: "casefold1 sample_db sp = [sp]"
  by (simp add: sample_db_def)

lemma normalize_sample: "normalize sample_db (u '' Ahoj,  lidi!'') = u ''ahoj , lidi !''"
  by code_simp

theorem normalize_idempotent_witness:
  "normalize sample_db (u '' Ahoj,  lidi!'') = u ''ahoj , lidi !'' \<and>
   normalize sample_db (u ''ahoj , lidi !'') = u ''ahoj , lidi !''"
  using normalize_idempotent[OF sample_db_ws sample_db_us sample_db_space sample_db_cf sample_db_cfsp,
      of "u '' Ahoj,  lidi!''"]
  by (simp only: normalize_sample)

section \<open>The reference test\<close>

lemma test_ort_eq:
  "test_ort = [0x68, 0x159, 0xED, 0x63, 0x68, 0x20, 0x62, 0x79, 0x20, 0x7A, 0x61, 0x20, 0x74, 0x79, 0x20,
     0x63, 0x68, 0x6F, 0x75, 0x74, 0x6B, 0x79, 0x20, 0x73, 0x74, 0xE1, 0x6C, 0x20, 0x6C, 0x65, 0x10D,
     0x20, 0x64, 0x6F, 0x62, 0x159, 0x65]"
  by (simp add: test_ort_def u_simps)

lemma test_word:
  assumes "\<forall>c \<in> set test_ort - {sp}. isalnum db c" and "\<not> isalnum db sp"
  shows "list_all (\<lambda>c. word db c = (c \<noteq> sp)) test_ort"
proof -
  have "word db c = (c \<noteq> sp)" if "c \<in> set test_ort" for c
    using that assms by (cases "c = sp") (auto simp add: word_def)
  then show ?thesis by (simp add: list_all_iff)
qed

lemma test_ins:
  assumes al: "\<forall>c \<in> set test_ort - {sp}. isalnum db c" and nal: "\<not> isalnum db sp"
  shows "ins (word db) test_ort = [0x68, 0x159, 0xED, 0x63, 0x68, 0x20, 0x20, 0x20, 0x62, 0x79, 0x20, 0x20, 0x20, 0x7A, 0x61, 0x20, 0x20, 0x20, 0x74, 0x79, 0x20, 0x20, 0x20,
     0x63, 0x68, 0x6F, 0x75, 0x74, 0x6B, 0x79, 0x20, 0x20, 0x20, 0x73, 0x74, 0xE1, 0x6C, 0x20, 0x20, 0x20, 0x6C, 0x65, 0x10D,
     0x20, 0x20, 0x20, 0x64, 0x6F, 0x62, 0x159, 0x65]"
proof -
  note W = test_word[OF assms, unfolded test_ort_eq, simplified]
  show ?thesis
    unfolding test_ort_eq by (simp add: W)
qed


lemma test_space:
  assumes "isspace db sp" and "\<forall>c \<in> set test_ort - {sp}. \<not> isspace db c"
  shows "list_all (\<lambda>c. isspace db c = (c = sp)) test_ort"
proof -
  have "isspace db c = (c = sp)" if "c \<in> set test_ort" for c
    using that assms by (cases "c = sp") auto
  then show ?thesis by (simp add: list_all_iff)
qed

lemma test_squeeze:
  assumes sp: "isspace db sp" and nsp: "\<forall>c \<in> set test_ort - {sp}. \<not> isspace db c"
  shows "squeeze (isspace db) [0x68, 0x159, 0xED, 0x63, 0x68, 0x20, 0x20, 0x20, 0x62, 0x79, 0x20, 0x20, 0x20, 0x7A, 0x61, 0x20, 0x20, 0x20, 0x74, 0x79, 0x20, 0x20, 0x20,
     0x63, 0x68, 0x6F, 0x75, 0x74, 0x6B, 0x79, 0x20, 0x20, 0x20, 0x73, 0x74, 0xE1, 0x6C, 0x20, 0x20, 0x20, 0x6C, 0x65, 0x10D,
     0x20, 0x20, 0x20, 0x64, 0x6F, 0x62, 0x159, 0x65] = test_ort"
proof -
  note S = test_space[OF assms, unfolded test_ort_eq, simplified]
  show ?thesis
    unfolding test_ort_eq by (simp add: S)
qed


lemma test_strip:
  assumes sp: "isspace db sp" and nsp: "\<forall>c \<in> set test_ort - {sp}. \<not> isspace db c"
  shows "strip db test_ort = test_ort"
proof (rule strip_fixed)
  note S = test_space[OF assms, unfolded test_ort_eq, simplified]
  show "\<not> isspace db (hd test_ort) \<and> \<not> isspace db (last test_ort)"
    unfolding test_ort_eq by (simp add: S)
qed

lemma test_normalize:
  assumes al: "\<forall>c \<in> set test_ort - {sp}. isalnum db c" and nal: "\<not> isalnum db sp"
    and sp: "isspace db sp" and nsp: "\<forall>c \<in> set test_ort - {sp}. \<not> isspace db c"
    and cf: "\<forall>c \<in> set test_ort. casefold1 db c = [c]"
  shows "normalize db test_ort = test_ort"
proof -
  have Wsp: "\<not> word db sp" using nal by (simp add: word_def)
  have cfo: "casefold db test_ort = test_ort"
    using cf by (intro casefold_fixed) blast
  show ?thesis
    unfolding normalize_ins[OF Wsp] cfo test_ins[OF al nal] space_def test_squeeze[OF sp nsp]
    by (rule test_strip[OF sp nsp])
qed


lemma test_init_scp:
  assumes al: "\<forall>c \<in> set test_ort - {sp}. isalnum db c" and nal: "\<not> isalnum db sp"
    and sp: "isspace db sp" and nsp: "\<forall>c \<in> set test_ort - {sp}. \<not> isspace db c"
  shows "init_scp db test_ort = test_ort"
proof -
  note W = test_word[OF al nal, unfolded test_ort_eq, simplified]
  note S = test_space[OF sp nsp, unfolded test_ort_eq, simplified]
  show ?thesis
    unfolding test_ort_eq
    by (simp add: init_scp_def init_scp_rules_def apply_rules_Cons apply_rules_empty re_sub_def
        lit_simps repl_simps u_simps chr_def any_of_def at_boundary_def non_space_def W S)
qed


lemma test_before_assim:
  "i_i_acute (e_caron (collapse_expand (foreign test_ort))) =
     u ''h'' @ [ch_r_caron, ch_i_acute] @ u ''x by za ty xoutky st'' @ [ch_a_acute] @ u ''l le''
       @ [ch_c_caron] @ u '' dob'' @ [ch_r_caron] @ u ''e''"
  by code_simp

lemma test_assim:
  "voicing_assim (u ''h'' @ [ch_r_caron, ch_i_acute] @ u ''x by za ty xoutky st'' @ [ch_a_acute] @ u ''l le''
       @ [ch_c_caron] @ u '' dob'' @ [ch_r_caron] @ u ''e'') =
   Inr (u ''h'' @ [ch_r_caron, ch_i_acute, ch_gamma] @ u '' by za ty xoutky st'' @ [ch_a_acute] @ u ''l le''
       @ [ch_lezh] @ u '' dob'' @ [ch_r_caron] @ u ''e'')"
  by code_simp

lemma test_after_assim:
  "postprocess (heuristic (hiatus (unify
     (u ''h'' @ [ch_r_caron, ch_i_acute, ch_gamma] @ u '' by za ty xoutky st'' @ [ch_a_acute] @ u ''l le''
       @ [ch_lezh] @ u '' dob'' @ [ch_r_caron] @ u ''e'')))) = test_fon"
  by code_simp

text \<open>
  C1. The sentence of the repository's test is transcribed as the test expects, for any
  Unicode tables that treat its characters as Python's do: the letters are alphanumeric
  and not whitespace, the space is whitespace and not alphanumeric, and every character
  folds to itself.
\<close>

theorem reference_test_transcription:
  assumes al: "\<forall>c \<in> set test_ort - {sp}. isalnum db c" and nal: "\<not> isalnum db sp"
    and sp: "isspace db sp" and nsp: "\<forall>c \<in> set test_ort - {sp}. \<not> isspace db c"
    and cf: "\<forall>c \<in> set test_ort. casefold1 db c = [c]"
  shows "Transcription db test_ort = Inr \<lparr>str_value = test_ort, ort = test_ort, fon = test_fon\<rparr>"
proof -
  have "transcribe db test_ort = Inr test_fon"
    unfolding transcribe_def Let_def test_normalize[OF assms] test_init_scp[OF al nal sp nsp]
      test_before_assim test_assim sum.case test_after_assim
    by (rule refl)
  then show ?thesis
    by (simp add: Transcription_def)
qed

lemma sample_db_test_list:
  "list_all (\<lambda>c. (c = sp \<or> isalnum sample_db c \<and> \<not> isspace sample_db c) \<and> casefold1 sample_db c = [c]) test_ort"
  unfolding test_ort_eq by (simp add: sample_db_def)

lemma sample_db_test:
  "\<forall>c \<in> set test_ort - {sp}. isalnum sample_db c" "\<not> isalnum sample_db sp"
  "\<forall>c \<in> set test_ort - {sp}. \<not> isspace sample_db c"
  "\<forall>c \<in> set test_ort. casefold1 sample_db c = [c]"
proof -
  have *: "\<forall>c \<in> set test_ort. (c = sp \<or> isalnum sample_db c \<and> \<not> isspace sample_db c) \<and> casefold1 sample_db c = [c]"
    using sample_db_test_list by (simp only: list_all_iff)
  show "\<forall>c \<in> set test_ort - {sp}. isalnum sample_db c" using * by blast
  show "\<forall>c \<in> set test_ort - {sp}. \<not> isspace sample_db c" using * by blast
  show "\<forall>c \<in> set test_ort. casefold1 sample_db c = [c]" using * by blast
  show "\<not> isalnum sample_db sp" by (simp add: sample_db_def)
qed

theorem reference_test_transcription_witness:
  "Transcription sample_db test_ort = Inr \<lparr>str_value = test_ort, ort = test_ort, fon = test_fon\<rparr>"
  using reference_test_transcription[OF sample_db_test(1,2) sample_db_space sample_db_test(3,4)] .

end
